theory Spec2Isabelle
  imports Complex_Main "HOL-Library.Log_Nat"
begin

section \<open>JavaScript numbers: IEEE 754 binary64\<close>

text \<open>
  Every number in \<^verbatim>\<open>complex.js\<close> is a JavaScript Number, an IEEE 754 binary64 value.
  A value is NaN, an infinity with its sign, or a finite number held as sign and
  magnitude (\<open>True\<close> is the negative sign), so that \<open>+0\<close> and \<open>-0\<close> are different values.
  The finite doubles are the magnitudes \<open>n * 2^j / 2^1074\<close> with \<open>n < 2^53\<close> that lie
  below \<open>2^1024\<close>; the arithmetic below rounds every exact result to that grid, to nearest
  with ties to even, and overflows to an infinity.
\<close>

datatype double = NaN | Infty bool | Fin bool real

definition rne :: "real \<Rightarrow> int" where
  \<comment> \<open>the nearest integer, a tie going to the even neighbour\<close>
  "rne x =
     (let f = \<lfloor>x\<rfloor>; d = x - of_int f
      in if d < 1 / 2 then f else if 1 / 2 < d then f + 1 else if even f then f else f + 1)"

definition round_units :: "nat \<Rightarrow> real \<Rightarrow> int" where
  \<comment> \<open>a magnitude \<open>M\<close>, counted in units of the smallest subnormal, keeps its \<open>p\<close> leading
      bits: the bits below are rounded away\<close>
  "round_units p M = (let j = nat (bitlen \<lfloor>M\<rfloor> - int p) in rne (M / 2 ^ j) * 2 ^ j)"

definition round_fp :: "nat \<Rightarrow> nat \<Rightarrow> nat \<Rightarrow> bool \<Rightarrow> real \<Rightarrow> double" where
  \<comment> \<open>rounding of the magnitude \<open>m\<close>, with sign \<open>s\<close>, in a binary format with \<open>p\<close> bits whose
      smallest subnormal is \<open>2^-e\<close>; a result that reaches \<open>2^w\<close> units overflows\<close>
  "round_fp p e w s m =
     (let n = round_units p (m * 2 ^ e)
      in if 2 ^ w \<le> n then Infty s else Fin s (of_int n / 2 ^ e))"

definition round_double :: "bool \<Rightarrow> real \<Rightarrow> double" where
  \<comment> \<open>binary64: 53 bits, the smallest subnormal \<open>2^-1074\<close>, overflow at \<open>2^1024\<close>\<close>
  "round_double = round_fp 53 1074 2098"

definition to_double :: "real \<Rightarrow> double" where
  \<comment> \<open>a real result, or a literal of the source, as a double\<close>
  "to_double r = round_double (r < 0) \<bar>r\<bar>"

definition signed :: "bool \<Rightarrow> real \<Rightarrow> real" where
  "signed s m = (if s then - m else m)"

definition is_double :: "double \<Rightarrow> bool" where
  \<comment> \<open>the values of the datatype that are doubles: rounding leaves them as they are\<close>
  "is_double x = (case x of Fin s m \<Rightarrow> 0 \<le> m \<and> round_double s m = Fin s m | _ \<Rightarrow> True)"

fun isNaN :: "double \<Rightarrow> bool" where
  "isNaN NaN = True"
| "isNaN _ = False"

fun fneg :: "double \<Rightarrow> double" where
  "fneg NaN = NaN"
| "fneg (Infty s) = Infty (\<not> s)"
| "fneg (Fin s m) = Fin (\<not> s) m"

fun Math_abs :: "double \<Rightarrow> double" where
  "Math_abs NaN = NaN"
| "Math_abs (Infty s) = Infty False"
| "Math_abs (Fin s m) = Fin False m"

fun fadd :: "double \<Rightarrow> double \<Rightarrow> double" where
  "fadd NaN y = NaN"
| "fadd x NaN = NaN"
| "fadd (Infty s) (Infty t) = (if s = t then Infty s else NaN)"
| "fadd (Infty s) (Fin t n) = Infty s"
| "fadd (Fin s m) (Infty t) = Infty t"
| "fadd (Fin s m) (Fin t n) =
     (let r = signed s m + signed t n
      in if r = 0 then Fin (s \<and> t) 0 else to_double r)"

definition fsub :: "double \<Rightarrow> double \<Rightarrow> double" where
  "fsub x y = fadd x (fneg y)"

fun fmul :: "double \<Rightarrow> double \<Rightarrow> double" where
  "fmul NaN y = NaN"
| "fmul x NaN = NaN"
| "fmul (Infty s) (Infty t) = Infty (s \<noteq> t)"
| "fmul (Infty s) (Fin t n) = (if n = 0 then NaN else Infty (s \<noteq> t))"
| "fmul (Fin s m) (Infty t) = (if m = 0 then NaN else Infty (s \<noteq> t))"
| "fmul (Fin s m) (Fin t n) = round_double (s \<noteq> t) (m * n)"

fun fdiv :: "double \<Rightarrow> double \<Rightarrow> double" where
  "fdiv NaN y = NaN"
| "fdiv x NaN = NaN"
| "fdiv (Infty s) (Infty t) = NaN"
| "fdiv (Infty s) (Fin t n) = Infty (s \<noteq> t)"
| "fdiv (Fin s m) (Infty t) = Fin (s \<noteq> t) 0"
| "fdiv (Fin s m) (Fin t n) =
     (if n = 0 then (if m = 0 then NaN else Infty (s \<noteq> t))
      else round_double (s \<noteq> t) (m / n))"

fun fmod :: "double \<Rightarrow> double \<Rightarrow> double" where
  \<comment> \<open>the remainder operator \<^verbatim>\<open>%\<close>: exact, truncating, with the sign of the dividend\<close>
  "fmod NaN y = NaN"
| "fmod x NaN = NaN"
| "fmod (Infty s) y = NaN"
| "fmod (Fin s m) (Infty t) = Fin s m"
| "fmod (Fin s m) (Fin t n) =
     (if n = 0 then NaN else Fin s (m - n * of_int \<lfloor>m / n\<rfloor>))"

fun flt :: "double \<Rightarrow> double \<Rightarrow> bool" where
  \<comment> \<open>\<^verbatim>\<open>x < y\<close>\<close>
  "flt NaN y = False"
| "flt x NaN = False"
| "flt (Infty s) (Infty t) = (s \<and> \<not> t)"
| "flt (Infty s) (Fin t n) = s"
| "flt (Fin s m) (Infty t) = (\<not> t)"
| "flt (Fin s m) (Fin t n) = (signed s m < signed t n)"

fun fle :: "double \<Rightarrow> double \<Rightarrow> bool" where
  \<comment> \<open>\<^verbatim>\<open>x <= y\<close>\<close>
  "fle NaN y = False"
| "fle x NaN = False"
| "fle (Infty s) (Infty t) = (s \<or> \<not> t)"
| "fle (Infty s) (Fin t n) = s"
| "fle (Fin s m) (Infty t) = (\<not> t)"
| "fle (Fin s m) (Fin t n) = (signed s m \<le> signed t n)"

definition fge :: "double \<Rightarrow> double \<Rightarrow> bool" where
  \<comment> \<open>\<^verbatim>\<open>x >= y\<close>\<close>
  "fge x y = fle y x"

fun feq :: "double \<Rightarrow> double \<Rightarrow> bool" where
  \<comment> \<open>\<^verbatim>\<open>x === y\<close> on numbers: NaN equals nothing, \<open>-0\<close> equals \<open>+0\<close>\<close>
  "feq (Infty s) (Infty t) = (s = t)"
| "feq (Fin s m) (Fin t n) = (signed s m = signed t n)"
| "feq x y = False"

definition is_zero :: "double \<Rightarrow> bool" where
  \<comment> \<open>\<^verbatim>\<open>0 === x\<close>\<close>
  "is_zero x = feq (to_double 0) x"

section \<open>The functions of \<^verbatim>\<open>Math\<close>\<close>

text \<open>
  The source calls \<^verbatim>\<open>Math.sqrt\<close>, \<^verbatim>\<open>Math.log\<close>, \<^verbatim>\<open>Math.exp\<close>, \<^verbatim>\<open>Math.cos\<close>,
  \<^verbatim>\<open>Math.sin\<close>, \<^verbatim>\<open>Math.cosh\<close>, \<^verbatim>\<open>Math.sinh\<close>, \<^verbatim>\<open>Math.atan2\<close> and \<^verbatim>\<open>Math.pow\<close> of
  the JavaScript runtime. They are not code of the library. ECMAScript fixes their
  results at NaN, at the infinities and at the zeros, and leaves the other results to
  the implementation as approximations. The definitions below take the special cases
  from ECMAScript and the correctly rounded real function everywhere else. The theorems
  of this theory use the special cases, the sign and coarse bounds of a result only,
  never its last bits, with one exception: the square of \<open>(1, 1)\<close> by \<^verbatim>\<open>pow\<close> takes
  \<^verbatim>\<open>Math.atan2(1, 1)\<close> to be the double nearest to \<open>\<pi> / 4\<close>.
\<close>

fun sign_bit :: "double \<Rightarrow> bool" where
  "sign_bit NaN = False"
| "sign_bit (Infty s) = s"
| "sign_bit (Fin s m) = s"

fun Math_sqrt :: "double \<Rightarrow> double" where
  "Math_sqrt NaN = NaN"
| "Math_sqrt (Infty s) = (if s then NaN else Infty False)"
| "Math_sqrt (Fin s m) =
     (if m = 0 then Fin s 0 else if s then NaN else round_double False (sqrt m))"

fun Math_log :: "double \<Rightarrow> double" where
  "Math_log NaN = NaN"
| "Math_log (Infty s) = (if s then NaN else Infty False)"
| "Math_log (Fin s m) =
     (if m = 0 then Infty True else if s then NaN else to_double (ln m))"

fun Math_exp :: "double \<Rightarrow> double" where
  "Math_exp NaN = NaN"
| "Math_exp (Infty s) = (if s then Fin False 0 else Infty False)"
| "Math_exp (Fin s m) = round_double False (exp (signed s m))"

fun Math_cos :: "double \<Rightarrow> double" where
  "Math_cos (Fin s m) = to_double (cos m)"
| "Math_cos x = NaN"

fun Math_sin :: "double \<Rightarrow> double" where
  "Math_sin (Fin s m) = (if m = 0 then Fin s 0 else to_double (sin (signed s m)))"
| "Math_sin x = NaN"

fun Math_cosh :: "double \<Rightarrow> double" where
  "Math_cosh NaN = NaN"
| "Math_cosh (Infty s) = Infty False"
| "Math_cosh (Fin s m) = round_double False (cosh m)"

fun Math_sinh :: "double \<Rightarrow> double" where
  "Math_sinh NaN = NaN"
| "Math_sinh (Infty s) = Infty s"
| "Math_sinh (Fin s m) = round_double s (sinh m)"

fun atan2_angle :: "double \<Rightarrow> double \<Rightarrow> real" where
  \<comment> \<open>the angle of the point \<open>(x, \<bar>y\<bar>)\<close>, between \<open>0\<close> and \<open>pi\<close>; the zeros and the infinities
      as ECMAScript lists them\<close>
  "atan2_angle (Infty s) (Infty t) = (if t then 3 * pi / 4 else pi / 4)"
| "atan2_angle (Infty s) x = pi / 2"
| "atan2_angle (Fin s m) (Infty t) = (if t then pi else 0)"
| "atan2_angle (Fin s m) (Fin t n) =
     (if m = 0 then (if t then pi else 0)
      else if n = 0 then pi / 2
      else if t then pi - arctan (m / n)
      else arctan (m / n))"
| "atan2_angle y x = 0"

definition Math_atan2 :: "double \<Rightarrow> double \<Rightarrow> double" where
  \<comment> \<open>\<^verbatim>\<open>Math.atan2(y, x)\<close>: the result has the sign of \<open>y\<close>\<close>
  "Math_atan2 y x =
     (if isNaN y \<or> isNaN x then NaN else round_double (sign_bit y) (atan2_angle y x))"

definition is_int :: "real \<Rightarrow> bool" where
  "is_int n = (of_int \<lfloor>n\<rfloor> = n)"

definition is_odd_int :: "real \<Rightarrow> bool" where
  "is_odd_int n = (is_int n \<and> odd \<lfloor>n\<rfloor>)"

fun Math_pow :: "double \<Rightarrow> double \<Rightarrow> double" where
  "Math_pow b NaN = NaN"
| "Math_pow NaN (Infty t) = NaN"
| "Math_pow (Infty s) (Infty t) = (if t then Fin False 0 else Infty False)"
| "Math_pow (Fin s m) (Infty t) =
     (if m = 0 then (if t then Infty False else Fin False 0)
      else if m = 1 then NaN
      else if (1 < m) = t then Fin False 0
      else Infty False)"
| "Math_pow NaN (Fin t n) = (if n = 0 then Fin False 1 else NaN)"
| "Math_pow (Infty s) (Fin t n) =
     (if n = 0 then Fin False 1
      else if t then Fin (s \<and> is_odd_int n) 0
      else Infty (s \<and> is_odd_int n))"
| "Math_pow (Fin s m) (Fin t n) =
     (if n = 0 then Fin False 1
      else if m = 0 then (if t then Infty (s \<and> is_odd_int n) else Fin (s \<and> is_odd_int n) 0)
      else if s \<and> \<not> is_int n then NaN
      else round_double (s \<and> is_odd_int n) (m powr signed t n))"

fun Math_floor :: "double \<Rightarrow> double" where
  "Math_floor (Fin s m) =
     (let r = \<lfloor>signed s m\<rfloor> in if r = 0 then Fin s 0 else to_double (of_int r))"
| "Math_floor x = x"

fun Math_ceil :: "double \<Rightarrow> double" where
  "Math_ceil (Fin s m) =
     (let r = \<lceil>signed s m\<rceil> in if r = 0 then Fin s 0 else to_double (of_int r))"
| "Math_ceil x = x"

fun Math_round :: "double \<Rightarrow> double" where
  \<comment> \<open>the nearest integer, a tie going up\<close>
  "Math_round (Fin s m) =
     (let r = \<lfloor>signed s m + 1 / 2\<rfloor> in if r = 0 then Fin s 0 else to_double (of_int r))"
| "Math_round x = x"


section \<open>The value type, the parser and the constructor\<close>

text \<open>
  A \<^verbatim>\<open>Complex\<close> object has the two fields \<^verbatim>\<open>re\<close> and \<^verbatim>\<open>im\<close>. The two errors are the
  strings the source throws: \<^verbatim>\<open>"Invalid Param"\<close> and \<^verbatim>\<open>"DIV/0"\<close>.
\<close>

record cnum =
  re :: double
  im :: double

datatype error = InvalidParam | DivisionByZero

text \<open>
  The arguments \<^verbatim>\<open>(a, b)\<close> that \<^verbatim>\<open>parse\<close> tells apart: no first argument
  (\<^verbatim>\<open>null\<close> or \<^verbatim>\<open>undefined\<close>), two numbers, an object with the fields \<^verbatim>\<open>re\<close> and
  \<^verbatim>\<open>im\<close> (a \<^verbatim>\<open>Complex\<close> object is one), an object with \<^verbatim>\<open>abs\<close> and \<^verbatim>\<open>arg\<close>, one
  number, and anything \<^verbatim>\<open>parse\<close> rejects by its shape. The string form, a loop over the
  matches of a regular expression, is not needed by any operation below and is left out.
\<close>

datatype jsarg =
    Missing
  | Pair double double
  | ReIm double double
  | AbsArg double double
  | Number double
  | Unsupported

definition of_cnum :: "cnum \<Rightarrow> jsarg" where
  "of_cnum z = ReIm (re z) (im z)"

text \<open>
  \<^verbatim>\<open>parse\<close> stages the pair in the shared object \<^verbatim>\<open>P\<close> and every caller reads \<^verbatim>\<open>P\<close>
  before \<^verbatim>\<open>parse\<close> runs again, so the model returns the pair. The last statement of
  \<^verbatim>\<open>parse\<close> rejects a pair whose product is NaN.
\<close>

fun staged :: "jsarg \<Rightarrow> (double \<times> double) option" where
  "staged Missing = Some (to_double 0, to_double 0)"
| "staged (Pair a b) = Some (a, b)"
| "staged (ReIm r i) = Some (r, i)"
| "staged (AbsArg r phi) = Some (fmul r (Math_cos phi), fmul r (Math_sin phi))"
| "staged (Number a) = Some (a, to_double 0)"
| "staged Unsupported = None"

definition parse :: "jsarg \<Rightarrow> error + double \<times> double" where
  "parse a =
     (case staged a of
        None \<Rightarrow> Inl InvalidParam
      | Some (r, i) \<Rightarrow> if isNaN (fmul r i) then Inl InvalidParam else Inr (r, i))"

definition new_Complex :: "jsarg \<Rightarrow> error + cnum" where
  "new_Complex a =
     (case parse a of Inl e \<Rightarrow> Inl e | Inr (r, i) \<Rightarrow> Inr \<lparr>re = r, im = i\<rparr>)"

definition Complex2 :: "double \<Rightarrow> double \<Rightarrow> error + cnum" where
  \<comment> \<open>the call \<^verbatim>\<open>new Complex(a, b)\<close> with two numbers\<close>
  "Complex2 a b = new_Complex (Pair a b)"

definition and_then :: "error + 'a \<Rightarrow> ('a \<Rightarrow> error + 'b) \<Rightarrow> error + 'b" where
  \<comment> \<open>a thrown error ends the chain of calls\<close>
  "and_then r f = (case r of Inl e \<Rightarrow> Inl e | Inr v \<Rightarrow> f v)"

definition ZERO :: cnum where "ZERO = \<lparr>re = to_double 0, im = to_double 0\<rparr>"
definition ONE :: cnum where "ONE = \<lparr>re = to_double 1, im = to_double 0\<rparr>"
definition I :: cnum where "I = \<lparr>re = to_double 0, im = to_double 1\<rparr>"

definition EPSILON :: double where
  "EPSILON = to_double (1 / 10 ^ 16)"

definition heaviside :: "double \<Rightarrow> double" where
  "heaviside x = (if flt x (to_double 0) then to_double (- 1) else to_double 1)"

section \<open>The stable-magnitude kernel\<close>

definition logsq2 :: "double \<Rightarrow> double \<Rightarrow> double" where
  "logsq2 a b =
     (let a' = Math_abs a; b' = Math_abs b
      in if feq a (to_double 0) then Math_log b'
         else if feq b (to_double 0) then Math_log a'
         else if flt a' (to_double 1000) \<and> flt b' (to_double 1000)
           then fmul (Math_log (fadd (fmul a a) (fmul b b))) (to_double (1 / 2))
         else Math_log (fdiv a (Math_cos (Math_atan2 b a))))"

definition abs_c :: "cnum \<Rightarrow> double" where
  "abs_c z =
     (let a = Math_abs (re z); b = Math_abs (im z)
      in if flt a (to_double 1000) \<and> flt b (to_double 1000)
           then Math_sqrt (fadd (fmul a a) (fmul b b))
         else if flt a b
           then (let a1 = b; b1 = fdiv (re z) (im z)
                 in fmul a1 (Math_sqrt (fadd (to_double 1) (fmul b1 b1))))
         else (let b1 = fdiv (im z) (re z)
               in fmul a (Math_sqrt (fadd (to_double 1) (fmul b1 b1)))))"

definition arg_c :: "cnum \<Rightarrow> double" where
  "arg_c z = Math_atan2 (im z) (re z)"

section \<open>Arithmetic\<close>

definition sign_c :: "cnum \<Rightarrow> error + cnum" where
  "sign_c z = (let a = abs_c z in Complex2 (fdiv (re z) a) (fdiv (im z) a))"

definition add :: "cnum \<Rightarrow> jsarg \<Rightarrow> error + cnum" where
  "add z a =
     and_then (parse a) (\<lambda>(p_re, p_im). Complex2 (fadd (re z) p_re) (fadd (im z) p_im))"

definition sub :: "cnum \<Rightarrow> jsarg \<Rightarrow> error + cnum" where
  "sub z a =
     and_then (parse a) (\<lambda>(p_re, p_im). Complex2 (fsub (re z) p_re) (fsub (im z) p_im))"

definition mul :: "cnum \<Rightarrow> jsarg \<Rightarrow> error + cnum" where
  "mul z a =
     and_then (parse a) (\<lambda>(p_re, p_im).
       Complex2 (fsub (fmul (re z) p_re) (fmul (im z) p_im))
                (fadd (fmul (re z) p_im) (fmul (im z) p_re)))"

definition div_c :: "cnum \<Rightarrow> jsarg \<Rightarrow> error + cnum" where
  "div_c z y =
     and_then (parse y) (\<lambda>(c, d).
       let a = re z; b = im z
       in if feq (to_double 0) c \<and> feq (to_double 0) d then Inl DivisionByZero
          else if flt (Math_abs c) (Math_abs d)
            then (let x = fdiv c d; t = fadd (fmul c x) d
                  in Complex2 (fdiv (fadd (fmul a x) b) t) (fdiv (fsub (fmul b x) a) t))
          else (let x = fdiv d c; t = fadd (fmul d x) c
                in Complex2 (fdiv (fadd a (fmul b x)) t) (fdiv (fsub b (fmul a x)) t)))"

definition inverse_c :: "cnum \<Rightarrow> error + cnum" where
  "inverse_c z =
     (let a = re z; b = im z; t = fadd (fmul a a) (fmul b b)
      in if feq (to_double 0) t then Inl DivisionByZero
         else Complex2 (fdiv a t) (fdiv (fneg b) t))"

definition conjugate :: "cnum \<Rightarrow> error + cnum" where
  "conjugate z = Complex2 (re z) (fneg (im z))"

definition neg :: "cnum \<Rightarrow> error + cnum" where
  "neg z = Complex2 (fneg (re z)) (fneg (im z))"

definition clone :: "cnum \<Rightarrow> error + cnum" where
  "clone z = Complex2 (re z) (im z)"

definition equals :: "cnum \<Rightarrow> jsarg \<Rightarrow> error + bool" where
  "equals z a =
     and_then (parse a) (\<lambda>(p_re, p_im).
       Inr (fle (Math_abs (fsub p_re (re z))) EPSILON \<and>
            fle (Math_abs (fsub p_im (im z))) EPSILON))"

section \<open>Powers, roots, exponential and logarithm\<close>

definition pow_general :: "cnum \<Rightarrow> double \<Rightarrow> double \<Rightarrow> error + cnum" where
  \<comment> \<open>the last statements of \<^verbatim>\<open>pow\<close>: the exponent is \<open>(p_re, p_im)\<close>\<close>
  "pow_general z p_re p_im =
     (let arg = Math_atan2 (im z) (re z);
          lg = logsq2 (re z) (im z);
          a = Math_exp (fsub (fmul p_re lg) (fmul p_im arg));
          b = fadd (fmul p_im lg) (fmul p_re arg)
      in Complex2 (fmul a (Math_cos b)) (fmul a (Math_sin b)))"

definition pow_c :: "cnum \<Rightarrow> jsarg \<Rightarrow> error + cnum" where
  "pow_c z y =
     and_then (parse y) (\<lambda>(p_re, p_im).
       let a = re z; b = im z
       in if feq a (to_double 0) \<and> feq b (to_double 0)
            then Complex2 (to_double 0) (to_double 0)
          else if feq p_im (to_double 0)
            then (if feq b (to_double 0) \<and> fge a (to_double 0)
                    then Complex2 (Math_pow a p_re) (to_double 0)
                  else if feq a (to_double 0)
                    then (let k = fmod p_re (to_double 4)
                          in if feq k (to_double 0)
                               then Complex2 (Math_pow b p_re) (to_double 0)
                             else if feq k (to_double 1)
                               then Complex2 (to_double 0) (Math_pow b p_re)
                             else if feq k (to_double 2)
                               then Complex2 (fneg (Math_pow b p_re)) (to_double 0)
                             else if feq k (to_double 3)
                               then Complex2 (to_double 0) (fneg (Math_pow b p_re))
                             else pow_general z p_re p_im)
                  else pow_general z p_re p_im)
          else pow_general z p_re p_im)"

definition sqrt_c :: "cnum \<Rightarrow> error + cnum" where
  "sqrt_c z =
     (let r = abs_c z
      in Complex2 (Math_sqrt (fmul (fadd r (re z)) (to_double (1 / 2))))
                  (fmul (Math_sqrt (fmul (fsub r (re z)) (to_double (1 / 2))))
                        (heaviside (im z))))"

definition exp_c :: "cnum \<Rightarrow> error + cnum" where
  "exp_c z =
     (let tmp = Math_exp (re z)
      in Complex2 (fmul tmp (Math_cos (im z))) (fmul tmp (Math_sin (im z))))"

definition log_c :: "cnum \<Rightarrow> error + cnum" where
  "log_c z = (let a = re z; b = im z in Complex2 (logsq2 a b) (Math_atan2 b a))"

section \<open>Circular and hyperbolic functions\<close>

definition sin_c :: "cnum \<Rightarrow> error + cnum" where
  "sin_c z =
     (let a = re z; b = im z
      in Complex2 (fmul (Math_sin a) (Math_cosh b)) (fmul (Math_cos a) (Math_sinh b)))"

definition cos_c :: "cnum \<Rightarrow> error + cnum" where
  "cos_c z =
     (let a = re z; b = im z
      in Complex2 (fmul (Math_cos a) (Math_cosh b)) (fmul (fneg (Math_sin a)) (Math_sinh b)))"

definition tan_c :: "cnum \<Rightarrow> error + cnum" where
  "tan_c z =
     (let a = re z; b = im z;
          d = fadd (Math_cos (fmul (to_double 2) a)) (Math_cosh (fmul (to_double 2) b))
      in Complex2 (fdiv (Math_sin (fmul (to_double 2) a)) d)
                  (fdiv (Math_sinh (fmul (to_double 2) b)) d))"

definition sinh_c :: "cnum \<Rightarrow> error + cnum" where
  "sinh_c z =
     (let a = re z; b = im z
      in Complex2 (fmul (Math_sinh a) (Math_cos b)) (fmul (Math_cosh a) (Math_sin b)))"

definition cosh_c :: "cnum \<Rightarrow> error + cnum" where
  "cosh_c z =
     (let a = re z; b = im z
      in Complex2 (fmul (Math_cosh a) (Math_cos b)) (fmul (Math_sinh a) (Math_sin b)))"

definition tanh_c :: "cnum \<Rightarrow> error + cnum" where
  "tanh_c z =
     (let a = re z; b = im z;
          d = fadd (Math_cosh (fmul (to_double 2) a)) (Math_cos (fmul (to_double 2) b))
      in Complex2 (fdiv (Math_sinh (fmul (to_double 2) a)) d)
                  (fdiv (Math_sin (fmul (to_double 2) b)) d))"

text \<open>
  The inverse functions are chains of method calls. The receiver of a call is evaluated
  before its argument, and the first error thrown ends the chain.
\<close>

definition asin_c :: "cnum \<Rightarrow> error + cnum" where
  "asin_c z =
     and_then (mul z (of_cnum z)) (\<lambda>t1.
     and_then (neg t1) (\<lambda>t2.
     and_then (add t2 (Number (to_double 1))) (\<lambda>t3.
     and_then (sqrt_c t3) (\<lambda>t4.
     and_then (mul z (of_cnum I)) (\<lambda>u.
     and_then (add t4 (of_cnum u)) (\<lambda>t5.
     and_then (log_c t5) (\<lambda>t6.
     and_then (mul t6 (of_cnum I)) neg)))))))"

definition acos_c :: "cnum \<Rightarrow> error + cnum" where
  "acos_c z =
     and_then (mul z (of_cnum z)) (\<lambda>t1.
     and_then (neg t1) (\<lambda>t2.
     and_then (add t2 (Number (to_double 1))) (\<lambda>t3.
     and_then (sqrt_c t3) (\<lambda>t4.
     and_then (mul t4 (of_cnum I)) (\<lambda>t5.
     and_then (add t5 (of_cnum z)) (\<lambda>t6.
     and_then (log_c t6) (\<lambda>t7.
     and_then (mul t7 (of_cnum I)) neg)))))))"

definition atan_c :: "cnum \<Rightarrow> error + cnum" where
  "atan_c z =
     and_then (add I (of_cnum z)) (\<lambda>t1.
     and_then (sub I (of_cnum z)) (\<lambda>u.
     and_then (div_c t1 (of_cnum u)) (\<lambda>t2.
     and_then (log_c t2) (\<lambda>t3.
     and_then (mul t3 (of_cnum I)) (\<lambda>t4.
     div_c t4 (Number (to_double 2)))))))"

section \<open>Rounding\<close>

fun or_zero :: "double option \<Rightarrow> double" where
  \<comment> \<open>\<^verbatim>\<open>places || 0\<close>: a missing argument, NaN and the zeros give \<open>0\<close>\<close>
  "or_zero None = to_double 0"
| "or_zero (Some NaN) = to_double 0"
| "or_zero (Some (Infty s)) = Infty s"
| "or_zero (Some (Fin s m)) = (if m = 0 then to_double 0 else Fin s m)"

definition ceil :: "cnum \<Rightarrow> double option \<Rightarrow> error + cnum" where
  "ceil z places =
     (let p = Math_pow (to_double 10) (or_zero places)
      in Complex2 (fdiv (Math_ceil (fmul (re z) p)) p) (fdiv (Math_ceil (fmul (im z) p)) p))"

definition floor_c :: "cnum \<Rightarrow> double option \<Rightarrow> error + cnum" where
  "floor_c z places =
     (let p = Math_pow (to_double 10) (or_zero places)
      in Complex2 (fdiv (Math_floor (fmul (re z) p)) p) (fdiv (Math_floor (fmul (im z) p)) p))"

definition round_c :: "cnum \<Rightarrow> double option \<Rightarrow> error + cnum" where
  "round_c z places =
     (let p = Math_pow (to_double 10) (or_zero places)
      in Complex2 (fdiv (Math_round (fmul (re z) p)) p) (fdiv (Math_round (fmul (im z) p)) p))"

section \<open>Predicates used in the statements\<close>

fun is_inf :: "double \<Rightarrow> bool" where
  "is_inf (Infty s) = True"
| "is_inf x = False"

fun is_zero_mag :: "double \<Rightarrow> bool" where
  \<comment> \<open>\<open>+0\<close> or \<open>-0\<close>\<close>
  "is_zero_mag (Fin s m) = (m = 0)"
| "is_zero_mag x = False"

definition smith_quotient :: "cnum \<Rightarrow> double \<Rightarrow> double \<Rightarrow> (double \<times> double) option" where
  \<comment> \<open>the quotient of \<open>x\<close> by \<open>(c, d)\<close> in the words of the specification: one formula when
      \<open>\<bar>c\<bar> < \<bar>d\<bar>\<close>, the other when \<open>\<bar>c\<bar> \<ge> \<bar>d\<bar>\<close>\<close>
  "smith_quotient x c d =
     (if flt (Math_abs c) (Math_abs d)
        then (let r = fdiv c d; t = fadd (fmul c r) d
              in Some (fdiv (fadd (fmul (re x) r) (im x)) t, fdiv (fsub (fmul (im x) r) (re x)) t))
      else if fge (Math_abs c) (Math_abs d)
        then (let r = fdiv d c; t = fadd (fmul d r) c
              in Some (fdiv (fadd (re x) (fmul (im x) r)) t, fdiv (fsub (im x) (fmul (re x) r)) t))
      else None)"

definition fmax :: "double \<Rightarrow> double \<Rightarrow> double" where
  \<comment> \<open>the larger of two numbers, NaN when one of them is NaN\<close>
  "fmax a b = (if isNaN a \<or> isNaN b then NaN else if flt a b then b else a)"

definition abs_spec :: "cnum \<Rightarrow> double" where
  \<comment> \<open>the magnitude in the words of the specification: the direct formula below \<open>1000\<close>,
      and otherwise the larger magnitude times \<open>sqrt (1 + b\<^sup>2)\<close>, where \<open>b\<close> is the signed
      ratio of the field of smaller magnitude to the field of larger magnitude\<close>
  "abs_spec z =
     (if flt (Math_abs (re z)) (to_double 1000) \<and> flt (Math_abs (im z)) (to_double 1000)
        then Math_sqrt (fadd (fmul (re z) (re z)) (fmul (im z) (im z)))
      else (let a = fmax (Math_abs (re z)) (Math_abs (im z));
                b = (if flt (Math_abs (re z)) (Math_abs (im z)) then fdiv (re z) (im z)
                     else if flt (Math_abs (im z)) (Math_abs (re z)) then fdiv (im z) (re z)
                     else fdiv (re z) (im z))
            in fmul a (Math_sqrt (fadd (to_double 1) (fmul b b)))))"

inductive returned :: "cnum \<Rightarrow> bool" where
  \<comment> \<open>the values that the constructor and the operations return\<close>
  by_new: "new_Complex a = Inr v \<Longrightarrow> returned v"
| by_sign: "sign_c z = Inr v \<Longrightarrow> returned v"
| by_add: "add z a = Inr v \<Longrightarrow> returned v"
| by_sub: "sub z a = Inr v \<Longrightarrow> returned v"
| by_mul: "mul z a = Inr v \<Longrightarrow> returned v"
| by_div: "div_c z a = Inr v \<Longrightarrow> returned v"
| by_pow: "pow_c z a = Inr v \<Longrightarrow> returned v"
| by_sqrt: "sqrt_c z = Inr v \<Longrightarrow> returned v"
| by_exp: "exp_c z = Inr v \<Longrightarrow> returned v"
| by_log: "log_c z = Inr v \<Longrightarrow> returned v"
| by_sin: "sin_c z = Inr v \<Longrightarrow> returned v"
| by_cos: "cos_c z = Inr v \<Longrightarrow> returned v"
| by_tan: "tan_c z = Inr v \<Longrightarrow> returned v"
| by_asin: "asin_c z = Inr v \<Longrightarrow> returned v"
| by_acos: "acos_c z = Inr v \<Longrightarrow> returned v"
| by_atan: "atan_c z = Inr v \<Longrightarrow> returned v"
| by_sinh: "sinh_c z = Inr v \<Longrightarrow> returned v"
| by_cosh: "cosh_c z = Inr v \<Longrightarrow> returned v"
| by_tanh: "tanh_c z = Inr v \<Longrightarrow> returned v"
| by_inverse: "inverse_c z = Inr v \<Longrightarrow> returned v"
| by_conjugate: "conjugate z = Inr v \<Longrightarrow> returned v"
| by_neg: "neg z = Inr v \<Longrightarrow> returned v"
| by_ceil: "ceil z places = Inr v \<Longrightarrow> returned v"
| by_floor: "floor_c z places = Inr v \<Longrightarrow> returned v"
| by_round: "round_c z places = Inr v \<Longrightarrow> returned v"
| by_clone: "clone z = Inr v \<Longrightarrow> returned v"

definition valid :: "cnum \<Rightarrow> bool" where
  \<comment> \<open>what the last statement of \<^verbatim>\<open>parse\<close> checks\<close>
  "valid v = (\<not> isNaN (fmul (re v) (im v)))"

definition logsq2_claimed :: "double \<Rightarrow> double \<Rightarrow> double" where
  \<comment> \<open>the contract of \<^verbatim>\<open>logsq2\<close> in the words of the specification: the last case has
      the absolute value of \<open>re\<close> as its numerator\<close>
  "logsq2_claimed a b =
     (if feq a (to_double 0) then Math_log (Math_abs b)
      else if feq b (to_double 0) then Math_log (Math_abs a)
      else if flt (Math_abs a) (to_double 1000) \<and> flt (Math_abs b) (to_double 1000)
        then fmul (to_double (1 / 2)) (Math_log (fadd (fmul a a) (fmul b b)))
      else Math_log (fdiv (Math_abs a) (Math_cos (Math_atan2 b a))))"

definition logsq2_amended :: "double \<Rightarrow> double \<Rightarrow> double" where
  \<comment> \<open>the same contract with \<open>re\<close> itself, with its sign, as the numerator of the last case\<close>
  "logsq2_amended a b =
     (if feq a (to_double 0) then Math_log (Math_abs b)
      else if feq b (to_double 0) then Math_log (Math_abs a)
      else if flt (Math_abs a) (to_double 1000) \<and> flt (Math_abs b) (to_double 1000)
        then fmul (to_double (1 / 2)) (Math_log (fadd (fmul a a) (fmul b b)))
      else Math_log (fdiv a (Math_cos (Math_atan2 b a))))"

definition rem4_case :: "double \<Rightarrow> nat option" where
  \<comment> \<open>the case that \<^verbatim>\<open>switch (P["re"] % 4)\<close> selects, if any\<close>
  "rem4_case c =
     (let k = fmod c (to_double 4)
      in if feq k (to_double 0) then Some 0
         else if feq k (to_double 1) then Some 1
         else if feq k (to_double 2) then Some 2
         else if feq k (to_double 3) then Some 3
         else None)"

definition closed_form :: "double \<Rightarrow> double \<Rightarrow> nat \<Rightarrow> cnum" where
  \<comment> \<open>the four closed forms of the specification for the base \<open>(0, b)\<close> and the exponent
      \<open>(c, 0)\<close>, by index\<close>
  "closed_form b c i =
     (if i = 0 then \<lparr>re = Math_pow b c, im = to_double 0\<rparr>
      else if i = 1 then \<lparr>re = to_double 0, im = Math_pow b c\<rparr>
      else if i = 2 then \<lparr>re = fneg (Math_pow b c), im = to_double 0\<rparr>
      else \<lparr>re = to_double 0, im = fneg (Math_pow b c)\<rparr>)"

definition pow_equals_square :: "cnum \<Rightarrow> error + bool" where
  \<comment> \<open>the comparison \<^verbatim>\<open>x.pow(2, 0).equals(x.mul(x))\<close>\<close>
  "pow_equals_square x =
     and_then (pow_c x (Pair (to_double 2) (to_double 0))) (\<lambda>p.
     and_then (mul x (of_cnum x)) (\<lambda>s. equals p (of_cnum s)))"

definition c_sum :: "cnum \<Rightarrow> cnum \<Rightarrow> cnum" where
  \<comment> \<open>the pair \<open>x + y\<close>, field by field\<close>
  "c_sum x y = \<lparr>re = fadd (re x) (re y), im = fadd (im x) (im y)\<rparr>"

definition c_difference :: "cnum \<Rightarrow> cnum \<Rightarrow> cnum" where
  \<comment> \<open>the pair \<open>x - y\<close>, field by field\<close>
  "c_difference x y = \<lparr>re = fsub (re x) (re y), im = fsub (im x) (im y)\<rparr>"

definition c_product :: "cnum \<Rightarrow> cnum \<Rightarrow> cnum" where
  \<comment> \<open>the pair \<open>x * y\<close>\<close>
  "c_product x y =
     \<lparr>re = fsub (fmul (re x) (re y)) (fmul (im x) (im y)),
      im = fadd (fmul (re x) (im y)) (fmul (im x) (re y))\<rparr>"

definition c_quotient :: "cnum \<Rightarrow> cnum \<Rightarrow> cnum" where
  \<comment> \<open>the pair \<open>x / y\<close> by the quotient of the specification; no case of it applies when
      a field of \<open>y\<close> is NaN, and the pair is then \<open>(NaN, NaN)\<close>\<close>
  "c_quotient x y =
     (case smith_quotient x (re y) (im y) of
        Some (a, b) \<Rightarrow> \<lparr>re = a, im = b\<rparr>
      | None \<Rightarrow> \<lparr>re = NaN, im = NaN\<rparr>)"

definition c_log :: "cnum \<Rightarrow> cnum" where
  \<comment> \<open>the pair \<open>log x\<close>: the logarithm of the magnitude and the angle\<close>
  "c_log x = \<lparr>re = logsq2 (re x) (im x), im = Math_atan2 (im x) (re x)\<rparr>"

definition atan_steps :: "cnum \<Rightarrow> cnum list" where
  \<comment> \<open>the operand \<open>z\<close> and the pairs of \<open>(i / 2) * log ((i + z) / (i - z))\<close> in the order of
      the chain \<^verbatim>\<open>I.add(z).div(I.sub(z)).log().mul(I).div(2)\<close>: \<open>i + z\<close>, \<open>i - z\<close>, their
      quotient, its logarithm, the logarithm times \<open>i\<close>, and that product over \<open>2\<close>\<close>
  "atan_steps z =
     (let s = c_sum I z;
          u = c_difference I z;
          q = c_quotient s u;
          l = c_log q;
          m = c_product l I;
          r = c_quotient m \<lparr>re = to_double 2, im = to_double 0\<rparr>
      in [z, s, u, q, l, m, r])"

section \<open>Facts about rounding\<close>

lemma rne_of_int: "rne (of_int k) = k"
  by (simp add: rne_def)

lemma rne_lower: "of_int a \<le> x \<Longrightarrow> a \<le> rne x"
proof -
  assume "of_int a \<le> x"
  then have "a \<le> \<lfloor>x\<rfloor>" by (simp add: le_floor_iff)
  then show ?thesis by (simp add: rne_def Let_def)
qed

lemma rne_upper: "x \<le> of_int b \<Longrightarrow> rne x \<le> b"
proof -
  assume h: "x \<le> of_int b"
  show ?thesis
  proof (cases "x = of_int \<lfloor>x\<rfloor>")
    case True
    then have "rne x = \<lfloor>x\<rfloor>" by (simp add: rne_def Let_def)
    moreover have "\<lfloor>x\<rfloor> \<le> b" using h by (simp add: floor_le_iff)
    ultimately show ?thesis by simp
  next
    case False
    moreover have "of_int \<lfloor>x\<rfloor> \<le> x" by simp
    ultimately have "of_int \<lfloor>x\<rfloor> < x" by linarith
    with h have "of_int \<lfloor>x\<rfloor> < (of_int b :: real)" by linarith
    then have "\<lfloor>x\<rfloor> < b" by (simp only: of_int_less_iff)
    then show ?thesis by (simp add: rne_def Let_def)
  qed
qed

lemma round_units_grid:
  assumes k: "0 \<le> k" "k < 2 ^ p"
  shows "round_units p (of_int (k * 2 ^ q)) = k * 2 ^ q"
proof (cases "k = 0")
  case True
  then show ?thesis by (simp add: round_units_def rne_def)
next
  case False
  with k have kpos: "0 < k" by simp
  define j where "j = nat (bitlen (k * 2 ^ q) - int p)"
  have bl: "bitlen (k * 2 ^ q) = bitlen k + int q"
    using kpos by simp
  have "bitlen k \<le> int p"
    using k kpos by (simp add: bitlen_le_iff_power)
  then have jq: "j \<le> q" by (simp add: j_def bl)
  have "(2::real) ^ q = 2 ^ (q - j) * 2 ^ j"
    using jq by (simp flip: power_add)
  then have "real_of_int (k * 2 ^ q) / 2 ^ j = of_int (k * 2 ^ (q - j))"
    by simp
  then have "rne (real_of_int (k * 2 ^ q) / 2 ^ j) = k * 2 ^ (q - j)"
    by (simp only: rne_of_int)
  then have n: "rne (real_of_int (k * 2 ^ q) / 2 ^ j) * 2 ^ j = k * 2 ^ q"
    using jq by (simp flip: power_add)
  show ?thesis
    unfolding round_units_def Let_def floor_of_int j_def [symmetric] n ..
qed

lemma round_units_lower:
  assumes p: "1 \<le> p" and M: "2 ^ P \<le> M"
  shows "2 ^ P \<le> round_units p M"
proof -
  define F where "F = \<lfloor>M\<rfloor>"
  define j where "j = nat (bitlen F - int p)"
  have FP: "2 ^ P \<le> F"
    using M by (simp add: F_def le_floor_iff)
  then have Fpos: "0 < F"
    by (smt (verit) zero_less_power)
  have n: "round_units p M = rne (M / 2 ^ j) * 2 ^ j"
    by (simp add: round_units_def Let_def F_def j_def)
  show ?thesis
  proof (cases "j = 0")
    case True
    have "real_of_int (2 ^ P) \<le> M" using M by simp
    then have "2 ^ P \<le> rne M" by (rule rne_lower)
    with True n show ?thesis by simp
  next
    case False
    then have jb: "int j = bitlen F - int p" by (simp add: j_def)
    define c where "c = nat (bitlen F - 1)"
    have bb: "2 ^ c \<le> F" "F < 2 ^ nat (bitlen F)"
      using bitlen_bounds [OF Fpos] by (simp_all add: c_def)
    have "(2::int) ^ P < 2 ^ nat (bitlen F)" using FP bb by linarith
    then have Pc: "P \<le> c" by (simp add: c_def)
    have jc: "j \<le> c" using jb p by (simp add: c_def)
    have "real_of_int (2 ^ c) \<le> real_of_int F" using bb(1) by (simp only: of_int_le_iff)
    also have "\<dots> \<le> M" by (simp add: F_def)
    finally have "2 ^ c \<le> M" by simp
    moreover have "(2::real) ^ c = 2 ^ (c - j) * 2 ^ j"
      using jc by (simp flip: power_add)
    ultimately have "real_of_int (2 ^ (c - j)) \<le> M / 2 ^ j"
      by (simp add: pos_le_divide_eq)
    then have "2 ^ (c - j) \<le> rne (M / 2 ^ j)" by (rule rne_lower)
    then have "2 ^ (c - j) * 2 ^ j \<le> rne (M / 2 ^ j) * 2 ^ j"
      by (simp add: mult_right_mono)
    then have "2 ^ c \<le> round_units p M"
      using jc n by (simp flip: power_add)
    moreover have "(2::int) ^ P \<le> 2 ^ c" using Pc by (simp add: power_increasing)
    ultimately show ?thesis by linarith
  qed
qed

lemma round_units_upper:
  assumes p: "1 \<le> p" and M: "M \<le> 2 ^ Q"
  shows "round_units p M \<le> 2 ^ Q"
proof -
  define F where "F = \<lfloor>M\<rfloor>"
  define j where "j = nat (bitlen F - int p)"
  have n: "round_units p M = rne (M / 2 ^ j) * 2 ^ j"
    by (simp add: round_units_def Let_def F_def j_def)
  have FQ: "F \<le> 2 ^ Q"
    using M by (simp add: F_def floor_le_iff) 
  have jQ: "j \<le> Q"
  proof (cases "0 < F")
    case False
    then have "bitlen F = 0" by (simp add: bitlen_eq_zero_iff)
    then show ?thesis by (simp add: j_def)
  next
    case True
    have "2 ^ nat (bitlen F - 1) \<le> F"
      using bitlen_bounds [OF True] by simp
    with FQ have "(2::int) ^ nat (bitlen F - 1) \<le> 2 ^ Q" by linarith
    then have "nat (bitlen F - 1) \<le> Q" by simp
    then show ?thesis using p by (simp add: j_def)
  qed
  have "(2::real) ^ Q = 2 ^ (Q - j) * 2 ^ j"
    using jQ by (simp flip: power_add)
  with M have "M / 2 ^ j \<le> real_of_int (2 ^ (Q - j))"
    by (simp add: pos_divide_le_eq)
  then have "rne (M / 2 ^ j) \<le> 2 ^ (Q - j)" by (rule rne_upper)
  then have "rne (M / 2 ^ j) * 2 ^ j \<le> 2 ^ (Q - j) * 2 ^ j"
    by (simp add: mult_right_mono)
  then show ?thesis using jQ n by (simp flip: power_add)
qed

lemma round_units_zero:
  assumes "0 \<le> M" "M < 1 / 2"
  shows "round_units p M = 0"
proof -
  from assms have "\<lfloor>M\<rfloor> = 0" by (simp add: floor_eq_iff)
  then show ?thesis using assms by (simp add: round_units_def rne_def)
qed

lemma round_units_nonneg: "0 \<le> M \<Longrightarrow> 0 \<le> round_units p M"
proof -
  assume "0 \<le> M"
  then have "real_of_int 0 \<le> M / 2 ^ nat (bitlen \<lfloor>M\<rfloor> - int p)" by simp
  then have "0 \<le> rne (M / 2 ^ nat (bitlen \<lfloor>M\<rfloor> - int p))" by (rule rne_lower)
  then show ?thesis by (simp add: round_units_def Let_def)
qed

lemma round_fp_cases:
  "round_fp p e w s m = Infty s \<or> (\<exists>m'. round_fp p e w s m = Fin s m')"
  by (simp add: round_fp_def Let_def)

lemma round_fp_sign:
  assumes "0 \<le> m" "round_fp p e w s m = Fin t m'"
  shows "t = s \<and> 0 \<le> m'"
proof -
  have "0 \<le> round_units p (m * 2 ^ e)"
    using assms(1) by (intro round_units_nonneg) simp
  then show ?thesis
    using assms(2) unfolding round_fp_def Let_def
    by (auto split: if_splits)
qed

lemma round_fp_exact:
  assumes "0 \<le> k" "k < 2 ^ p" "k * 2 ^ q < (2::int) ^ w"
  shows "round_fp p e w s (of_int (k * 2 ^ q) / 2 ^ e) = Fin s (of_int (k * 2 ^ q) / 2 ^ e)"
proof -
  have g: "round_units p (real_of_int (k * 2 ^ q)) = k * 2 ^ q"
    using assms(1,2) by (rule round_units_grid)
  have e: "real_of_int (k * 2 ^ q) / 2 ^ e * 2 ^ e = real_of_int (k * 2 ^ q)" by simp
  show ?thesis
    unfolding round_fp_def Let_def e g using assms(3) by simp
qed

lemma round_fp_dyadic:
  assumes k: "0 \<le> k" "k < 2 ^ p" and d: "d \<le> e" and w: "p + e \<le> w"
  shows "round_fp p e w s (of_int k / 2 ^ d) = Fin s (of_int k / 2 ^ d)"
proof -
  have "k * 2 ^ (e - d) < (2::int) ^ p * 2 ^ (e - d)"
    using k(2) by (rule mult_strict_right_mono) simp
  also have "\<dots> \<le> 2 ^ w"
    unfolding power_add [symmetric] using w by (intro power_increasing) simp_all
  finally have lt: "k * 2 ^ (e - d) < (2::int) ^ w" .
  have "(2::real) ^ e = 2 ^ (e - d) * 2 ^ d"
    using d by (simp flip: power_add)
  then have "real_of_int (k * 2 ^ (e - d)) / 2 ^ e = of_int k / 2 ^ d"
    by simp
  then show ?thesis
    using round_fp_exact [OF k lt, of e s] by simp
qed

lemma round_fp_int:
  assumes "0 \<le> k" "k < 2 ^ p" "p + e \<le> w"
  shows "round_fp p e w s (of_int k) = Fin s (of_int k)"
  using round_fp_dyadic [OF assms(1,2) _ assms(3), of 0 s] by simp

lemma round_fp_underflow:
  assumes "0 \<le> m" "m * 2 ^ e < 1 / 2"
  shows "round_fp p e w s m = Fin s 0"
proof -
  have "round_units p (m * 2 ^ e) = 0"
    using assms by (intro round_units_zero) simp_all
  then show ?thesis by (simp add: round_fp_def)
qed

lemma round_fp_overflow:
  assumes "1 \<le> p" "2 ^ w \<le> m * 2 ^ e"
  shows "round_fp p e w s m = Infty s"
  using round_units_lower [OF assms] by (simp add: round_fp_def)

lemma round_fp_upper:
  assumes p: "1 \<le> p" and m: "0 \<le> m" "m \<le> 2 ^ Q" and Q: "Q + e < w"
  shows "\<exists>m'. round_fp p e w s m = Fin s m' \<and> 0 \<le> m' \<and> m' \<le> 2 ^ Q"
proof -
  define n where "n = round_units p (m * 2 ^ e)"
  have "m * 2 ^ e \<le> 2 ^ Q * 2 ^ e"
    using m(2) by (rule mult_right_mono) simp
  then have "m * 2 ^ e \<le> 2 ^ (Q + e)" by (simp add: power_add)
  then have u: "n \<le> 2 ^ (Q + e)"
    unfolding n_def using p by (intro round_units_upper)
  also have "\<dots> < (2::int) ^ w"
    using Q by (intro power_strict_increasing) simp_all
  finally have r: "round_fp p e w s m = Fin s (of_int n / 2 ^ e)"
    by (simp add: round_fp_def n_def)
  have "0 \<le> n"
    unfolding n_def using m(1) by (intro round_units_nonneg) simp
  then have "0 \<le> real_of_int n / 2 ^ e" by simp
  moreover have "real_of_int n \<le> real_of_int (2 ^ (Q + e))"
    using u by (simp only: of_int_le_iff)
  then have "real_of_int n / 2 ^ e \<le> 2 ^ Q"
    by (simp add: pos_divide_le_eq power_add)
  ultimately show ?thesis using r by blast
qed

lemma round_fp_lower:
  assumes p: "1 \<le> p" and d: "d \<le> e" and m: "2 ^ P / 2 ^ d \<le> m"
  shows "round_fp p e w s m = Infty s \<or>
    (\<exists>m'. round_fp p e w s m = Fin s m' \<and> 2 ^ P / 2 ^ d \<le> m')"
proof -
  define n where "n = round_units p (m * 2 ^ e)"
  have e: "(2::real) ^ e = 2 ^ (e - d) * 2 ^ d"
    using d by (simp flip: power_add)
  have "2 ^ P / 2 ^ d * 2 ^ e \<le> m * 2 ^ e"
    using m by (rule mult_right_mono) simp
  then have "2 ^ (P + (e - d)) \<le> m * 2 ^ e"
    by (simp add: e power_add)
  then have "2 ^ (P + (e - d)) \<le> n"
    unfolding n_def using p by (intro round_units_lower)
  then have "real_of_int (2 ^ (P + (e - d))) \<le> real_of_int n"
    by (simp only: of_int_le_iff)
  then have "2 ^ P / 2 ^ d \<le> real_of_int n / 2 ^ e"
    by (simp add: e power_add pos_le_divide_eq field_simps)
  then show ?thesis
    by (simp add: round_fp_def n_def Let_def)
qed

lemma round_double_cases:
  "round_double s m = Infty s \<or> (\<exists>m'. round_double s m = Fin s m')"
  unfolding round_double_def by (rule round_fp_cases)

lemma round_double_not_NaN [simp]: "round_double s m \<noteq> NaN" "\<not> isNaN (round_double s m)"
  using round_double_cases [of s m] by auto

lemma to_double_not_NaN [simp]: "to_double r \<noteq> NaN" "\<not> isNaN (to_double r)"
  by (simp_all add: to_double_def)

lemma round_double_sign:
  "0 \<le> m \<Longrightarrow> round_double s m = Fin t m' \<Longrightarrow> t = s \<and> 0 \<le> m'"
  unfolding round_double_def by (rule round_fp_sign)

lemma round_double_int:
  "0 \<le> k \<Longrightarrow> k < 2 ^ 53 \<Longrightarrow> round_double s (of_int k) = Fin s (of_int k)"
  unfolding round_double_def by (rule round_fp_int) simp_all

lemma round_double_dyadic:
  "0 \<le> k \<Longrightarrow> k < 2 ^ 53 \<Longrightarrow> d \<le> 1074 \<Longrightarrow>
   round_double s (of_int k / 2 ^ d) = Fin s (of_int k / 2 ^ d)"
  unfolding round_double_def by (rule round_fp_dyadic) simp_all

lemma round_double_0 [simp]: "round_double s 0 = Fin s 0"
  using round_double_int [of 0 s] by simp

lemma round_double_1 [simp]: "round_double s 1 = Fin s 1"
  using round_double_int [of 1 s] by simp

lemma round_double_numeral [simp]:
  "numeral v < (2::int) ^ 53 \<Longrightarrow> round_double s (numeral v) = Fin s (numeral v)"
  using round_double_int [of "numeral v" s] by simp

lemma round_double_half [simp]: "round_double s (1 / 2) = Fin s (1 / 2)"
  using round_double_dyadic [of 1 1 s] by simp

lemma round_double_underflow:
  "0 \<le> m \<Longrightarrow> m * 2 ^ 1075 < 1 \<Longrightarrow> round_double s m = Fin s 0"
  unfolding round_double_def
proof (rule round_fp_underflow)
  assume "m * 2 ^ 1075 < 1"
  then have "m * (2 ^ 1074 * 2) < 1" by (simp only: power_Suc2 [symmetric] eval_nat_numeral)
  then show "m * 2 ^ 1074 < 1 / 2" by (simp add: field_simps del: power_numeral)
qed

section \<open>Literals of the source\<close>

lemma to_double_0 [simp]: "to_double 0 = Fin False 0"
  by (simp add: to_double_def)

lemma to_double_1 [simp]: "to_double 1 = Fin False 1"
  by (simp add: to_double_def)

lemma to_double_numeral [simp]:
  "numeral v < (2::int) ^ 53 \<Longrightarrow> to_double (numeral v) = Fin False (numeral v)"
  by (simp add: to_double_def)

lemma to_double_neg_numeral [simp]:
  "numeral v < (2::int) ^ 53 \<Longrightarrow> to_double (- numeral v) = Fin True (numeral v)"
  by (simp add: to_double_def)

lemma to_double_neg_1 [simp]: "to_double (- 1) = Fin True 1"
  by (simp add: to_double_def)

lemma to_double_half [simp]: "to_double (1 / 2) = Fin False (1 / 2)"
  by (simp add: to_double_def)

section \<open>The constructor validates the product of the two fields\<close>

lemma fmul_NaN_iff:
  "isNaN (fmul a b) \<longleftrightarrow>
     isNaN a \<or> isNaN b \<or> (is_inf a \<and> is_zero_mag b) \<or> (is_zero_mag a \<and> is_inf b)"
  by (cases a; cases b) simp_all

lemma parse_Pair: "parse (Pair a b) = (if isNaN (fmul a b) then Inl InvalidParam else Inr (a, b))"
  by (simp add: parse_def)

lemma Complex2_eq:
  "Complex2 a b = (if isNaN (fmul a b) then Inl InvalidParam else Inr \<lparr>re = a, im = b\<rparr>)"
  by (simp add: Complex2_def new_Complex_def parse_def)

text \<open>
  C10. The constructor called with two numbers \<open>a\<close> and \<open>b\<close>, and \<^verbatim>\<open>parse\<close> called with
  them for the operand of an operation, throw \<^verbatim>\<open>"Invalid Param"\<close> exactly when the
  product \<open>a * b\<close> is NaN, and give the pair \<open>(a, b)\<close> otherwise. \<open>Complex(Infinity, 0)\<close> is
  rejected, since \<open>Infinity * 0\<close> is NaN; \<open>Complex(Infinity, 5)\<close> is accepted and its real
  field is infinite.
\<close>

theorem constructor_rejects_NaN_product:
  "(Complex2 a b = Inl InvalidParam \<longleftrightarrow> isNaN (fmul a b)) \<and>
   (\<not> isNaN (fmul a b) \<longrightarrow> Complex2 a b = Inr \<lparr>re = a, im = b\<rparr>) \<and>
   (parse (Pair a b) = Inl InvalidParam \<longleftrightarrow> isNaN (fmul a b)) \<and>
   (\<not> isNaN (fmul a b) \<longrightarrow> parse (Pair a b) = Inr (a, b)) \<and>
   Complex2 (Infty False) (to_double 0) = Inl InvalidParam \<and>
   Complex2 (Infty False) (to_double 5) = Inr \<lparr>re = Infty False, im = to_double 5\<rparr>"
  by (simp add: Complex2_eq parse_Pair)

theorem constructor_rejects_NaN_product_witness:
  "\<not> isNaN (fmul (to_double 3) (to_double 4)) \<and>
   Complex2 (to_double 3) (to_double 4) = Inr \<lparr>re = to_double 3, im = to_double 4\<rparr> \<and>
   parse (Pair (to_double 3) (to_double 4)) = Inr (to_double 3, to_double 4)"
  using constructor_rejects_NaN_product [of "to_double 3" "to_double 4"] by simp

section \<open>Division\<close>

lemma round_fp_overflow_pow:
  assumes "1 \<le> p" "2 ^ E \<le> m" "w \<le> E + e"
  shows "round_fp p e w s m = Infty s"
proof (rule round_fp_overflow [OF assms(1)])
  have "(2::real) ^ w \<le> 2 ^ (E + e)"
    using assms(3) by (intro power_increasing) simp_all
  also have "\<dots> = 2 ^ E * 2 ^ e" by (simp add: power_add)
  also have "\<dots> \<le> m * 2 ^ e"
    using assms(2) by (rule mult_right_mono) simp
  finally show "2 ^ w \<le> m * 2 ^ e" .
qed

lemma round_double_overflow:
  "2 ^ 1024 \<le> m \<Longrightarrow> round_double s m = Infty s"
  unfolding round_double_def by (rule round_fp_overflow_pow [where E = 1024]) simp_all

lemma Complex2_not_DivisionByZero [simp]: "Complex2 a b \<noteq> Inl DivisionByZero"
  by (simp add: Complex2_eq)

lemma not_flt_imp_fge:
  "\<not> isNaN c \<Longrightarrow> \<not> isNaN d \<Longrightarrow> \<not> flt (Math_abs c) (Math_abs d) \<Longrightarrow> fge (Math_abs c) (Math_abs d)"
  by (cases c; cases d) (auto simp: fge_def signed_def)

lemma parse_no_NaN:
  assumes "parse y = Inr (c, d)"
  shows "\<not> isNaN c \<and> \<not> isNaN d \<and> \<not> isNaN (fmul c d)"
proof -
  from assms have "\<not> isNaN (fmul c d)"
    by (auto simp: parse_def split: option.splits if_splits)
  then show ?thesis by (simp add: fmul_NaN_iff)
qed

text \<open>
  C1, as amended. For a divisor that \<^verbatim>\<open>parse\<close> accepts as the pair \<open>(c, d)\<close>, \<^verbatim>\<open>div\<close>
  throws \<^verbatim>\<open>"DIV/0"\<close> exactly when \<open>c\<close> and \<open>d\<close> are both zero. Otherwise it computes the
  quotient of Smith's algorithm, as the specification words it, and hands it to the
  constructor: the quotient is returned when the product of its two components is not
  NaN, and \<^verbatim>\<open>"Invalid Param"\<close> is thrown when it is.
\<close>

theorem div_smith_validated:
  assumes "parse y = Inr (c, d)"
  shows "(div_c x y = Inl DivisionByZero \<longleftrightarrow> feq (to_double 0) c \<and> feq (to_double 0) d) \<and>
    (\<not> (feq (to_double 0) c \<and> feq (to_double 0) d) \<longrightarrow>
     (\<exists>q. smith_quotient x c d = Some q \<and>
        div_c x y = (if isNaN (fmul (fst q) (snd q)) then Inl InvalidParam
                     else Inr \<lparr>re = fst q, im = snd q\<rparr>)))"
proof -
  from parse_no_NaN [OF assms] have nn: "\<not> isNaN c" "\<not> isNaN d" by simp_all
  show ?thesis
  proof (cases "flt (Math_abs c) (Math_abs d)")
    case True
    then show ?thesis
      using assms by (simp add: div_c_def and_then_def smith_quotient_def Let_def Complex2_eq)
  next
    case False
    with nn have "fge (Math_abs c) (Math_abs d)" by (intro not_flt_imp_fge)
    with False show ?thesis
      using assms by (simp add: div_c_def and_then_def smith_quotient_def Let_def Complex2_eq)
  qed
qed

lemmas fp_eval = signed_def fsub_def fge_def Let_def parse_def Complex2_eq and_then_def

theorem div_smith_validated_witness:
  "parse (Pair (to_double 0) (to_double 2)) = Inr (to_double 0, to_double 2) \<and>
   div_c \<lparr>re = to_double 1, im = to_double 2\<rparr> (Pair (to_double 0) (to_double 2)) \<noteq> Inl DivisionByZero \<and>
   smith_quotient \<lparr>re = to_double 1, im = to_double 2\<rparr> (to_double 0) (to_double 2) = Some (to_double 1, to_double (- (1 / 2))) \<and>
   div_c \<lparr>re = to_double 1, im = to_double 2\<rparr> (Pair (to_double 0) (to_double 2)) =
     Inr \<lparr>re = to_double 1, im = to_double (- (1 / 2))\<rparr>"
proof -
  have p: "parse (Pair (to_double 0) (to_double 2)) = Inr (to_double 0, to_double 2)"
    by (simp add: fp_eval)
  have q: "smith_quotient \<lparr>re = to_double 1, im = to_double 2\<rparr> (to_double 0) (to_double 2)
      = Some (to_double 1, to_double (- (1 / 2)))"
    by (simp add: smith_quotient_def fp_eval to_double_def)
  show ?thesis
    using div_smith_validated [OF p, of "\<lparr>re = to_double 1, im = to_double 2\<rparr>"] p q
    by (simp add: fp_eval to_double_def)
qed

lemma div_by_tiny:
  assumes u: "0 < u" "round_double False u = Fin False u" "round_double False (1 / u) = Infty False"
  shows "div_c \<lparr>re = to_double 1, im = to_double 0\<rparr> (Pair (Fin False u) (to_double 0)) = Inl InvalidParam"
    and "smith_quotient \<lparr>re = to_double 1, im = to_double 0\<rparr> (Fin False u) (to_double 0)
      = Some (Infty False, to_double 0)"
    and "parse (Pair (Fin False u) (to_double 0)) = Inr (Fin False u, to_double 0)"
  using u by (simp_all add: div_c_def smith_quotient_def fp_eval to_double_def)

text \<open>
  C1 as stated fails: \<open>1 / 5e-324\<close> overflows to \<open>Infinity\<close>, the imaginary part of the
  quotient is \<open>0\<close>, and the constructor rejects the pair, so that the division of \<open>1\<close> by
  the smallest positive double throws \<^verbatim>\<open>"Invalid Param"\<close> and returns nothing.
\<close>

theorem div_returns_quotient_counterexample:
  "is_double (Fin False (1 / 2 ^ 1074)) \<and>
   parse (Pair (Fin False (1 / 2 ^ 1074)) (to_double 0)) = Inr (Fin False (1 / 2 ^ 1074), to_double 0) \<and>
   \<not> feq (to_double 0) (Fin False (1 / 2 ^ 1074)) \<and>
   smith_quotient \<lparr>re = to_double 1, im = to_double 0\<rparr> (Fin False (1 / 2 ^ 1074)) (to_double 0)
     = Some (Infty False, to_double 0) \<and>
   div_c \<lparr>re = to_double 1, im = to_double 0\<rparr> (Pair (Fin False (1 / 2 ^ 1074)) (to_double 0))
     = Inl InvalidParam"
proof -
  define u :: real where "u = 1 / 2 ^ 1074"
  have pos: "0 < u" by (simp add: u_def)
  have r: "round_double False u = Fin False u"
    unfolding u_def using round_double_dyadic [of 1 1074 False] by simp
  have "round_double False (2 ^ 1074) = Infty False"
    by (rule round_double_overflow) (rule power_increasing, simp_all)
  then have o: "round_double False (1 / u) = Infty False" by (simp add: u_def)
  have "is_double (Fin False u)" using pos r by (simp add: is_double_def)
  moreover have "\<not> feq (to_double 0) (Fin False u)" using pos by (simp add: signed_def)
  ultimately show ?thesis
    using div_by_tiny [OF pos r o] unfolding u_def by blast
qed

section \<open>The inverse\<close>

text \<open>
  C6, as amended. \<^verbatim>\<open>inverse\<close> throws \<^verbatim>\<open>"DIV/0"\<close> when both fields are zero. When the sum
  \<open>t\<close> of the squares of the fields, computed in doubles, is not zero, it computes
  \<open>(re / t, - im / t)\<close> and hands the pair to the constructor: the pair is returned when the
  product of its components is not NaN, and \<^verbatim>\<open>"Invalid Param"\<close> is thrown when it is.
\<close>

theorem inverse_validated:
  "(feq (to_double 0) (re z) \<and> feq (to_double 0) (im z) \<longrightarrow> inverse_c z = Inl DivisionByZero) \<and>
   (\<not> feq (to_double 0) (fadd (fmul (re z) (re z)) (fmul (im z) (im z))) \<longrightarrow>
      inverse_c z =
        (let t = fadd (fmul (re z) (re z)) (fmul (im z) (im z))
         in if isNaN (fmul (fdiv (re z) t) (fdiv (fneg (im z)) t)) then Inl InvalidParam
            else Inr \<lparr>re = fdiv (re z) t, im = fdiv (fneg (im z)) t\<rparr>))"
proof -
  have "feq (to_double 0) (fadd (fmul a a) (fmul b b))"
    if "feq (to_double 0) a" "feq (to_double 0) b" for a b
    using that by (cases a; cases b) (auto simp: signed_def split: if_splits)
  then show ?thesis
    by (auto simp: inverse_c_def Let_def Complex2_eq)
qed

theorem inverse_validated_witness:
  "inverse_c \<lparr>re = to_double 0, im = to_double 0\<rparr> = Inl DivisionByZero \<and>
   \<not> feq (to_double 0) (fadd (fmul (to_double 2) (to_double 2)) (fmul (to_double 0) (to_double 0))) \<and>
   inverse_c \<lparr>re = to_double 2, im = to_double 0\<rparr> = Inr \<lparr>re = to_double (1 / 2), im = Fin True 0\<rparr>"
  using inverse_validated [of "\<lparr>re = to_double 0, im = to_double 0\<rparr>"]
    inverse_validated [of "\<lparr>re = to_double 2, im = to_double 0\<rparr>"]
  by (simp add: fp_eval)

lemma inverse_of_tiny:
  assumes u: "0 < u" "round_double False (u * u) = Fin False 0"
  shows "inverse_c \<lparr>re = Fin False u, im = to_double 0\<rparr> = Inl DivisionByZero"
  using u by (simp add: inverse_c_def fp_eval)

text \<open>
  C6 as stated fails in both directions. The square of the smallest positive double
  underflows to \<open>0\<close>, so \<^verbatim>\<open>inverse\<close> of a value that is not zero throws \<^verbatim>\<open>"DIV/0"\<close>. And
  \<open>Complex(Infinity, 1)\<close>, which the constructor accepts, has \<open>t = Infinity\<close> and
  \<open>re / t = NaN\<close>: \<^verbatim>\<open>inverse\<close> throws \<^verbatim>\<open>"Invalid Param"\<close>.
\<close>

theorem inverse_zero_only_counterexample:
  "is_double (Fin False (1 / 2 ^ 1074)) \<and>
   \<not> feq (to_double 0) (Fin False (1 / 2 ^ 1074)) \<and>
   inverse_c \<lparr>re = Fin False (1 / 2 ^ 1074), im = to_double 0\<rparr> = Inl DivisionByZero \<and>
   Complex2 (Infty False) (to_double 1) = Inr \<lparr>re = Infty False, im = to_double 1\<rparr> \<and>
   inverse_c \<lparr>re = Infty False, im = to_double 1\<rparr> = Inl InvalidParam"
proof -
  define u :: real where "u = 1 / 2 ^ 1074"
  have pos: "0 < u" by (simp add: u_def)
  have r: "round_double False u = Fin False u"
    unfolding u_def using round_double_dyadic [of 1 1074 False] by simp
  have "u * u * 2 ^ 1075 < 1" by (simp add: u_def)
  then have z: "round_double False (u * u) = Fin False 0"
    using pos by (intro round_double_underflow) simp_all
  have "is_double (Fin False u)" using pos r by (simp add: is_double_def)
  moreover have "\<not> feq (to_double 0) (Fin False u)" using pos by (simp add: signed_def)
  moreover have "inverse_c \<lparr>re = Infty False, im = to_double 1\<rparr> = Inl InvalidParam"
    by (simp add: inverse_c_def fp_eval)
  moreover have "Complex2 (Infty False) (to_double 1) = Inr \<lparr>re = Infty False, im = to_double 1\<rparr>"
    by (simp add: fp_eval)
  ultimately show ?thesis
    using inverse_of_tiny [OF pos z] unfolding u_def by blast
qed

section \<open>Equality and NaN\<close>

lemma fsub_NaN [simp]: "fsub a NaN = NaN" "fsub NaN a = NaN"
  by (cases a; simp add: fsub_def)+

text \<open>
  C7, as amended. When a field of the receiver or a component of the operand is NaN,
  \<^verbatim>\<open>equals\<close> never returns true: it throws \<^verbatim>\<open>"Invalid Param"\<close> when the product of the
  operand's components is NaN, which is so whenever the operand holds NaN, and it
  returns false otherwise.
\<close>

theorem equals_NaN:
  assumes "staged y = Some (c, d)"
    and "isNaN (re x) \<or> isNaN (im x) \<or> isNaN c \<or> isNaN d"
  shows "equals x y \<noteq> Inr True \<and>
    equals x y = (if isNaN (fmul c d) then Inl InvalidParam else Inr False) \<and>
    (isNaN c \<or> isNaN d \<longrightarrow> equals x y = Inl InvalidParam)"
proof (cases "isNaN (fmul c d)")
  case True
  then show ?thesis using assms(1) by (simp add: equals_def parse_def and_then_def)
next
  case False
  then have nn: "\<not> isNaN c" "\<not> isNaN d" by (simp_all add: fmul_NaN_iff)
  with assms(2) have "isNaN (re x) \<or> isNaN (im x)" by simp
  then have "re x = NaN \<or> im x = NaN"
    by (metis isNaN.elims(2))
  then have "\<not> (fle (Math_abs (fsub c (re x))) EPSILON \<and> fle (Math_abs (fsub d (im x))) EPSILON)"
    by auto
  with False nn show ?thesis
    using assms(1) by (simp add: equals_def parse_def and_then_def)
qed

theorem equals_NaN_witness:
  "staged (Pair (to_double 1) (to_double 1)) = Some (to_double 1, to_double 1) \<and>
   isNaN (re \<lparr>re = NaN, im = to_double 1\<rparr>) \<and>
   equals \<lparr>re = NaN, im = to_double 1\<rparr> (Pair (to_double 1) (to_double 1)) = Inr False \<and>
   equals \<lparr>re = to_double 1, im = to_double 1\<rparr> (ReIm NaN (to_double 1)) = Inl InvalidParam"
  using equals_NaN [of "Pair (to_double 1) (to_double 1)" "to_double 1" "to_double 1" "\<lparr>re = NaN, im = to_double 1\<rparr>"]
    equals_NaN [of "ReIm NaN (to_double 1)" NaN "to_double 1" "\<lparr>re = to_double 1, im = to_double 1\<rparr>"]
  by simp

text \<open>
  C7 as stated fails: an operand that holds NaN does not pass \<^verbatim>\<open>parse\<close>, so the
  comparison throws \<^verbatim>\<open>"Invalid Param"\<close> and returns nothing.
\<close>

theorem equals_NaN_raises_counterexample:
  "equals \<lparr>re = to_double 1, im = to_double 1\<rparr> (ReIm NaN (to_double 0)) = Inl InvalidParam \<and>
   equals \<lparr>re = to_double 1, im = to_double 1\<rparr> (Pair NaN (to_double 0)) = Inl InvalidParam"
  by (simp add: equals_def parse_def and_then_def)

section \<open>The magnitude\<close>

lemma fmul_abs_self: "fmul (Math_abs a) (Math_abs a) = fmul a a"
  by (cases a) simp_all

lemma abs_c_eq_spec: "abs_c z = abs_spec z"
proof (cases "flt (Math_abs (re z)) (to_double 1000) \<and> flt (Math_abs (im z)) (to_double 1000)")
  case True
  show ?thesis
    unfolding abs_c_def abs_spec_def Let_def if_P [OF True] fmul_abs_self ..
next
  case False
  have tie: "fdiv a b = fdiv b a"
    if "\<not> flt (Math_abs a) (Math_abs b)" "\<not> flt (Math_abs b) (Math_abs a)" for a b
    using that by (cases a; cases b) (auto simp: signed_def)
  have mx: "fmul (fmax (Math_abs a) (Math_abs b)) c =
      fmul (if flt (Math_abs a) (Math_abs b) then Math_abs b else Math_abs a) c"
    if "isNaN a \<or> isNaN b \<Longrightarrow> isNaN c" for a b c
    using that by (cases a; cases b; cases c) (simp_all add: fmax_def)
  have nan: "isNaN (Math_sqrt (fadd (to_double 1) (fmul (fdiv a b) (fdiv a b))))"
    if "isNaN a \<or> isNaN b" for a b
    using that by (cases a; cases b) simp_all
  show ?thesis
  proof (cases "flt (Math_abs (re z)) (Math_abs (im z))")
    case True
    have "isNaN (Math_sqrt (fadd (to_double 1) (fmul (fdiv (re z) (im z)) (fdiv (re z) (im z)))))"
      if "isNaN (re z) \<or> isNaN (im z)"
      using that by (rule nan)
    from mx [of "re z" "im z", OF this] show ?thesis
      unfolding abs_c_def abs_spec_def Let_def if_not_P [OF False] if_P [OF True] by simp
  next
    case nlt: False
    have n: "isNaN (Math_sqrt (fadd (to_double 1) (fmul (fdiv (im z) (re z)) (fdiv (im z) (re z)))))"
      if "isNaN (re z) \<or> isNaN (im z)"
      using that nan [of "im z" "re z"] by blast
    show ?thesis
    proof (cases "flt (Math_abs (im z)) (Math_abs (re z))")
      case True
      from mx [of "re z" "im z", OF n] show ?thesis
        unfolding abs_c_def abs_spec_def Let_def if_not_P [OF False] if_not_P [OF nlt] if_P [OF True]
        by simp
    next
      case False2: False
      have e: "fdiv (re z) (im z) = fdiv (im z) (re z)"
        using nlt False2 by (rule tie)
      from mx [of "re z" "im z", OF n] show ?thesis
        unfolding abs_c_def abs_spec_def Let_def if_not_P [OF False] if_not_P [OF nlt]
          if_not_P [OF False2] e
        by simp
    qed
  qed
qed

lemma abs_c_zero:
  assumes "is_zero_mag (re z)" "is_zero_mag (im z)"
  shows "abs_c z = to_double 0"
proof -
  obtain s t where "re z = Fin s 0" "im z = Fin t 0"
    using assms by (cases "re z"; cases "im z") simp_all
  then show ?thesis by (simp add: abs_c_def signed_def)
qed

lemma abs_c_NaN:
  assumes "isNaN (re z) \<or> isNaN (im z)"
  shows "abs_c z = NaN"
  using assms by (cases "re z"; cases "im z") (simp_all add: abs_c_def Let_def)
lemma sqrt_25: "sqrt 25 = 5"
  using real_sqrt_abs [of 5] by simp

text \<open>
  C3. \<^verbatim>\<open>abs\<close> is the magnitude as the specification words it: \<open>sqrt (re\<^sup>2 + im\<^sup>2)\<close> when both
  magnitudes are below \<open>1000\<close>, and otherwise the larger magnitude times \<open>sqrt (1 + b\<^sup>2)\<close>
  with \<open>b\<close> the signed ratio of the smaller field to the larger. The magnitude of a zero
  is \<open>0\<close>, and it is NaN when a field is NaN.
\<close>

theorem abs_scaled:
  "abs_c z = abs_spec z \<and>
   (is_zero_mag (re z) \<and> is_zero_mag (im z) \<longrightarrow> abs_c z = to_double 0) \<and>
   (isNaN (re z) \<or> isNaN (im z) \<longrightarrow> abs_c z = NaN)"
  using abs_c_eq_spec abs_c_zero abs_c_NaN by blast

theorem abs_scaled_witness:
  "abs_c \<lparr>re = to_double 3, im = to_double 4\<rparr> = to_double 5 \<and>
   abs_c \<lparr>re = to_double 0, im = to_double 2000\<rparr> = to_double 2000 \<and>
   is_zero_mag (to_double 0) \<and> is_zero_mag (Fin True 0) \<and>
   abs_c \<lparr>re = to_double 0, im = Fin True 0\<rparr> = to_double 0 \<and>
   abs_c \<lparr>re = to_double 3, im = NaN\<rparr> = NaN"
proof -
  have "abs_spec \<lparr>re = to_double 3, im = to_double 4\<rparr> = to_double 5"
    by (simp add: abs_spec_def fp_eval to_double_def sqrt_25)
  moreover have "abs_c \<lparr>re = to_double 3, im = to_double 4\<rparr> = abs_spec \<lparr>re = to_double 3, im = to_double 4\<rparr>"
    using abs_scaled [of "\<lparr>re = to_double 3, im = to_double 4\<rparr>"] by blast
  moreover have "abs_spec \<lparr>re = to_double 0, im = to_double 2000\<rparr> = to_double 2000"
    by (simp add: abs_spec_def fmax_def fp_eval to_double_def)
  moreover have "abs_c \<lparr>re = to_double 0, im = to_double 2000\<rparr> = abs_spec \<lparr>re = to_double 0, im = to_double 2000\<rparr>"
    using abs_scaled [of "\<lparr>re = to_double 0, im = to_double 2000\<rparr>"] by blast
  moreover have "abs_c \<lparr>re = to_double 0, im = Fin True 0\<rparr> = to_double 0"
    using abs_scaled [of "\<lparr>re = to_double 0, im = Fin True 0\<rparr>"] by auto
  moreover have "abs_c \<lparr>re = to_double 3, im = NaN\<rparr> = NaN"
    using abs_scaled [of "\<lparr>re = to_double 3, im = NaN\<rparr>"] by auto
  ultimately show ?thesis by simp
qed

section \<open>What the constructor and the operations return\<close>

lemma Complex2_valid: "Complex2 a b = Inr v \<Longrightarrow> valid v"
  by (auto simp: Complex2_eq valid_def split: if_splits)

lemma new_Complex_valid: "new_Complex a = Inr v \<Longrightarrow> valid v"
  by (auto simp: new_Complex_def parse_def valid_def split: option.splits if_splits sum.splits)

lemma and_then_Inr: "and_then r f = Inr v \<Longrightarrow> \<exists>u. r = Inr u \<and> f u = Inr v"
  by (cases r) (simp_all add: and_then_def)

lemma add_valid: "add z a = Inr v \<Longrightarrow> valid v"
  by (auto simp: add_def dest!: and_then_Inr Complex2_valid)

lemma sub_valid: "sub z a = Inr v \<Longrightarrow> valid v"
  by (auto simp: sub_def dest!: and_then_Inr Complex2_valid)

lemma mul_valid: "mul z a = Inr v \<Longrightarrow> valid v"
  by (auto simp: mul_def dest!: and_then_Inr Complex2_valid)

lemma div_c_valid: "div_c z a = Inr v \<Longrightarrow> valid v"
  by (auto simp: div_c_def Let_def dest!: and_then_Inr Complex2_valid split: if_splits)

lemma neg_valid: "neg z = Inr v \<Longrightarrow> valid v"
  by (auto simp: neg_def dest: Complex2_valid)

lemma pow_general_valid: "pow_general z p q = Inr v \<Longrightarrow> valid v"
  by (auto simp: pow_general_def Let_def dest: Complex2_valid)

lemma pow_c_valid: "pow_c z a = Inr v \<Longrightarrow> valid v"
  by (auto simp: pow_c_def Let_def dest!: and_then_Inr split: if_splits
      dest: Complex2_valid pow_general_valid)

lemma asin_c_valid: "asin_c z = Inr v \<Longrightarrow> valid v"
  unfolding asin_c_def by (blast dest: and_then_Inr neg_valid)

lemma acos_c_valid: "acos_c z = Inr v \<Longrightarrow> valid v"
  unfolding acos_c_def by (blast dest: and_then_Inr neg_valid)

lemma atan_c_valid: "atan_c z = Inr v \<Longrightarrow> valid v"
  unfolding atan_c_def by (blast dest: and_then_Inr div_c_valid)

lemma valid_fields:
  "valid v \<longleftrightarrow> \<not> isNaN (re v) \<and> \<not> isNaN (im v) \<and>
     \<not> (is_inf (re v) \<and> is_zero_mag (im v)) \<and> \<not> (is_zero_mag (re v) \<and> is_inf (im v))"
  by (auto simp: valid_def fmul_NaN_iff)

text \<open>
  C8, as amended. Every value that the constructor or an operation returns passed the
  check of \<^verbatim>\<open>parse\<close>: the product of its fields is not NaN. So neither field is NaN, and
  an infinite field stands beside a field that is not zero. A field can be \<open>+Infinity\<close>
  or \<open>-Infinity\<close>.
\<close>

theorem returned_never_NaN:
  assumes "returned v"
  shows "\<not> isNaN (re v) \<and> \<not> isNaN (im v) \<and>
     \<not> (is_inf (re v) \<and> is_zero_mag (im v)) \<and> \<not> (is_zero_mag (re v) \<and> is_inf (im v))"
proof -
  from assms have "valid v"
  proof cases
    case (by_new a) then show ?thesis by (rule new_Complex_valid)
  next
    case (by_sign z) then show ?thesis by (auto simp: sign_c_def Let_def dest: Complex2_valid)
  next
    case (by_add z a) then show ?thesis by (rule add_valid)
  next
    case (by_sub z a) then show ?thesis by (rule sub_valid)
  next
    case (by_mul z a) then show ?thesis by (rule mul_valid)
  next
    case (by_div z a) then show ?thesis by (rule div_c_valid)
  next
    case (by_pow z a) then show ?thesis by (rule pow_c_valid)
  next
    case (by_sqrt z) then show ?thesis by (auto simp: sqrt_c_def Let_def dest: Complex2_valid)
  next
    case (by_exp z) then show ?thesis by (auto simp: exp_c_def Let_def dest: Complex2_valid)
  next
    case (by_log z) then show ?thesis by (auto simp: log_c_def Let_def dest: Complex2_valid)
  next
    case (by_sin z) then show ?thesis by (auto simp: sin_c_def Let_def dest: Complex2_valid)
  next
    case (by_cos z) then show ?thesis by (auto simp: cos_c_def Let_def dest: Complex2_valid)
  next
    case (by_tan z) then show ?thesis by (auto simp: tan_c_def Let_def dest: Complex2_valid)
  next
    case (by_asin z) then show ?thesis by (rule asin_c_valid)
  next
    case (by_acos z) then show ?thesis by (rule acos_c_valid)
  next
    case (by_atan z) then show ?thesis by (rule atan_c_valid)
  next
    case (by_sinh z) then show ?thesis by (auto simp: sinh_c_def Let_def dest: Complex2_valid)
  next
    case (by_cosh z) then show ?thesis by (auto simp: cosh_c_def Let_def dest: Complex2_valid)
  next
    case (by_tanh z) then show ?thesis by (auto simp: tanh_c_def Let_def dest: Complex2_valid)
  next
    case (by_inverse z) then show ?thesis
      by (auto simp: inverse_c_def Let_def dest: Complex2_valid split: if_splits)
  next
    case (by_conjugate z) then show ?thesis by (auto simp: conjugate_def dest: Complex2_valid)
  next
    case (by_neg z) then show ?thesis by (rule neg_valid)
  next
    case (by_ceil z p) then show ?thesis by (auto simp: ceil_def Let_def dest: Complex2_valid)
  next
    case (by_floor z p) then show ?thesis by (auto simp: floor_c_def Let_def dest: Complex2_valid)
  next
    case (by_round z p) then show ?thesis by (auto simp: round_c_def Let_def dest: Complex2_valid)
  next
    case (by_clone z) then show ?thesis by (auto simp: clone_def dest: Complex2_valid)
  qed
  then show ?thesis by (simp add: valid_fields)
qed

theorem returned_never_NaN_witness:
  "returned \<lparr>re = to_double 3, im = to_double 4\<rparr> \<and>
   \<not> isNaN (re \<lparr>re = to_double 3, im = to_double 4\<rparr>) \<and>
   \<not> isNaN (im \<lparr>re = to_double 3, im = to_double 4\<rparr>)"
proof -
  have "new_Complex (Pair (to_double 3) (to_double 4)) = Inr \<lparr>re = to_double 3, im = to_double 4\<rparr>"
    by (simp add: new_Complex_def parse_def)
  then have r: "returned \<lparr>re = to_double 3, im = to_double 4\<rparr>"
    by (rule returned.by_new)
  from returned_never_NaN [OF r] r show ?thesis by simp
qed

lemma round_fp_pow2:
  assumes "1 \<le> p" "E + e < w"
  shows "round_fp p e w s (2 ^ E) = Fin s (2 ^ E)"
proof -
  have "(1::int) < 2 ^ p" using assms(1) by (simp add: one_less_power)
  moreover have "1 * 2 ^ (E + e) < (2::int) ^ w"
    using assms(2) by (simp add: power_strict_increasing)
  ultimately have "round_fp p e w s (of_int (1 * 2 ^ (E + e)) / 2 ^ e)
      = Fin s (of_int (1 * 2 ^ (E + e)) / 2 ^ e)"
    by (intro round_fp_exact) simp_all
  then show ?thesis by (simp add: power_add)
qed

lemma add_big:
  "add \<lparr>re = Fin False (2 ^ 1023), im = to_double 1\<rparr> (Pair (Fin False (2 ^ 1023)) (to_double 1))
     = Inr \<lparr>re = Infty False, im = to_double 2\<rparr>"
proof -
  define B :: real where "B = 2 ^ 1023"
  have pos: "0 < B" by (simp add: B_def)
  have "(2::real) ^ 1024 = B + B" by (simp add: B_def)
  then have o: "round_double False (B + B) = Infty False"
    by (intro round_double_overflow) simp
  have "round_double False (B * 1) \<noteq> NaN" by simp
  then have n: "\<not> isNaN (round_double False B)" by (cases "round_double False B") simp_all
  have "add \<lparr>re = Fin False B, im = to_double 1\<rparr> (Pair (Fin False B) (to_double 1))
     = Inr \<lparr>re = Infty False, im = to_double 2\<rparr>"
    using pos o n by (simp add: add_def fp_eval to_double_def)
  then show ?thesis by (simp only: B_def)
qed

text \<open>
  C8 as stated fails: the constructor accepts \<open>Complex(Infinity, 5)\<close>, and the sum of
  \<open>2^1023 + i\<close> with itself, two values with finite fields, has the real field
  \<open>+Infinity\<close>.
\<close>

theorem returned_infinite_counterexample:
  "new_Complex (Pair (Infty False) (to_double 5)) = Inr \<lparr>re = Infty False, im = to_double 5\<rparr> \<and>
   returned \<lparr>re = Infty False, im = to_double 5\<rparr> \<and>
   is_double (Fin False (2 ^ 1023)) \<and>
   add \<lparr>re = Fin False (2 ^ 1023), im = to_double 1\<rparr> (Pair (Fin False (2 ^ 1023)) (to_double 1))
     = Inr \<lparr>re = Infty False, im = to_double 2\<rparr> \<and>
   returned \<lparr>re = Infty False, im = to_double 2\<rparr> \<and>
   is_inf (re \<lparr>re = Infty False, im = to_double 2\<rparr>)"
proof -
  have n: "new_Complex (Pair (Infty False) (to_double 5)) = Inr \<lparr>re = Infty False, im = to_double 5\<rparr>"
    by (simp add: new_Complex_def parse_def)
  have "round_double False (2 ^ 1023) = Fin False (2 ^ 1023)"
    unfolding round_double_def by (rule round_fp_pow2) simp_all
  then have d: "is_double (Fin False (2 ^ 1023))"
    unfolding is_double_def by (simp del: power_numeral)
  show ?thesis
    using n returned.by_new [OF n] d add_big returned.by_add [OF add_big] by simp
qed

section \<open>The arc tangent\<close>

lemma is_double_grid:
  assumes "is_double (Fin s m)"
  shows "\<exists>k::int. 0 \<le> k \<and> m = of_int k / 2 ^ 1074"
proof -
  from assms have m: "0 \<le> m" and r: "round_double s m = Fin s m"
    by (simp_all add: is_double_def)
  define n where "n = round_units 53 (m * 2 ^ 1074)"
  have "0 \<le> n" unfolding n_def using m by (intro round_units_nonneg) simp
  moreover have "m = of_int n / 2 ^ 1074"
    using r unfolding round_double_def round_fp_def Let_def n_def [symmetric]
    by (simp split: if_splits del: power_numeral)
  ultimately show ?thesis by blast
qed

lemma round_double_grid_nonzero:
  assumes "1 \<le> k"
  shows "round_double s (of_int k / 2 ^ 1074) = Infty s \<or>
    (\<exists>m'. round_double s (of_int k / 2 ^ 1074) = Fin s m' \<and> 0 < m')"
proof -
  have "(2::real) ^ 0 / 2 ^ 1074 \<le> of_int k / 2 ^ 1074"
    using assms by (simp add: divide_right_mono del: power_numeral)
  from round_fp_lower [OF _ _ this, of 53 1074 2098 s]
  have "round_double s (of_int k / 2 ^ 1074) = Infty s \<or>
    (\<exists>m'. round_double s (of_int k / 2 ^ 1074) = Fin s m' \<and> 2 ^ 0 / 2 ^ 1074 \<le> m')"
    by (simp add: round_double_def del: power_numeral)
  moreover have "(0::real) < 2 ^ 0 / 2 ^ 1074" by simp
  ultimately show ?thesis by (metis less_le_trans)
qed

lemma signed_Not [simp]: "signed (\<not> t) n = - signed t n"
  by (simp add: signed_def)

lemma signed_zero [simp]: "signed s 0 = 0"
  by (simp add: signed_def)

lemma feq_zero_Fin [simp]:
  "feq (Fin False 0) (Fin s m) = (m = 0)" "feq (Fin s m) (Fin False 0) = (m = 0)"
  by (simp_all add: signed_def)

lemma fsub_zero_iff:
  assumes "is_double (Fin s m)" "is_double y"
  shows "feq (Fin False 0) (fsub (Fin s m) y) = feq (Fin s m) y"
proof (cases y)
  case NaN
  then show ?thesis by (simp add: fsub_def)
next
  case (Infty t)
  then show ?thesis by (simp add: fsub_def)
next
  case (Fin t n)
  define r where "r = signed s m - signed t n"
  obtain k where k: "m = of_int k / 2 ^ 1074"
    using is_double_grid [OF assms(1)] by blast
  obtain l where l: "n = of_int l / 2 ^ 1074"
    using is_double_grid [of t n] assms(2) Fin by blast
  define j :: int where "j = (if s then - k else k) - (if t then - l else l)"
  have rj: "r = of_int j / 2 ^ 1074"
    by (simp add: r_def j_def signed_def k l diff_divide_distrib del: power_numeral)
  show ?thesis
  proof (cases "r = 0")
    case True
    then show ?thesis
      using Fin by (simp add: fsub_def r_def)
  next
    case False
    then have "j \<noteq> 0" using rj by auto
    then have "1 \<le> \<bar>j\<bar>" by simp
    from round_double_grid_nonzero [OF this, of "r < 0"]
    have "\<not> feq (Fin False 0) (round_double (r < 0) (of_int \<bar>j\<bar> / 2 ^ 1074))"
      by (auto simp: signed_def simp del: power_numeral split: if_splits)
    moreover have "\<bar>r\<bar> = of_int \<bar>j\<bar> / 2 ^ 1074"
      by (simp add: rj del: power_numeral)
    ultimately have "\<not> feq (Fin False 0) (to_double r)"
      by (simp add: to_double_def del: power_numeral)
    moreover have "fsub (Fin s m) y = to_double r"
      using False Fin by (simp add: fsub_def r_def Let_def)
    moreover have "\<not> feq (Fin s m) y"
      using False Fin by (simp add: r_def)
    ultimately show ?thesis by simp
  qed
qed

lemma feq_sym: "feq a b = feq b a"
  by (cases a; cases b) auto

lemma parse_not_DivisionByZero [simp]: "parse a \<noteq> Inl DivisionByZero"
  by (auto simp: parse_def split: option.splits)

lemma and_then_Inl:
  "and_then r f = Inl e \<longleftrightarrow> r = Inl e \<or> (\<exists>u. r = Inr u \<and> f u = Inl e)"
  by (cases r) (simp_all add: and_then_def)

lemma add_not_DivisionByZero [simp]: "add z a \<noteq> Inl DivisionByZero"
  by (auto simp: add_def and_then_Inl)

lemma sub_not_DivisionByZero [simp]: "sub z a \<noteq> Inl DivisionByZero"
  by (auto simp: sub_def and_then_Inl)

lemma mul_not_DivisionByZero [simp]: "mul z a \<noteq> Inl DivisionByZero"
  by (auto simp: mul_def and_then_Inl)

lemma log_c_not_DivisionByZero [simp]: "log_c z \<noteq> Inl DivisionByZero"
  by (simp add: log_c_def Let_def)

lemma div_c_DivisionByZero_iff:
  "div_c z y = Inl DivisionByZero \<longleftrightarrow>
     (\<exists>c d. parse y = Inr (c, d) \<and> feq (to_double 0) c \<and> feq (to_double 0) d)"
  by (auto simp: div_c_def and_then_Inl Let_def)

lemma div_by_two_not_DivisionByZero [simp]:
  "div_c z (Number (Fin False 2)) \<noteq> Inl DivisionByZero"
  by (simp add: div_c_DivisionByZero_iff parse_def signed_def)

lemma is_double_consts [simp]: "is_double (Fin s 0)" "is_double (Fin s 1)"
  by (simp_all add: is_double_def)

lemma sub_Inr:
  "sub z (of_cnum w) = Inr u \<Longrightarrow> u = \<lparr>re = fsub (re z) (re w), im = fsub (im z) (im w)\<rparr>"
  by (auto simp: sub_def of_cnum_def parse_def Complex2_eq dest!: and_then_Inr split: if_splits)

lemma parse_of_cnum: "parse (of_cnum u) = Inr (c, d) \<Longrightarrow> c = re u \<and> d = im u"
  by (auto simp: of_cnum_def parse_def split: if_splits)

lemma Complex2_fields:
  "Complex2 (re v) (im v) = (if valid v then Inr v else Inl InvalidParam)"
  by (simp add: Complex2_eq valid_def)

lemma parse_of_cnum_eq:
  "parse (of_cnum y) = (if valid y then Inr (re y, im y) else Inl InvalidParam)"
  by (simp add: parse_def of_cnum_def valid_def)

lemma add_steps:
  "add x (of_cnum y) =
     (if valid y \<and> valid (c_sum x y) then Inr (c_sum x y) else Inl InvalidParam)"
  using Complex2_fields [of "c_sum x y"]
  by (simp add: add_def parse_of_cnum_eq and_then_def c_sum_def)

lemma sub_steps:
  "sub x (of_cnum y) =
     (if valid y \<and> valid (c_difference x y) then Inr (c_difference x y) else Inl InvalidParam)"
  using Complex2_fields [of "c_difference x y"]
  by (simp add: sub_def parse_of_cnum_eq and_then_def c_difference_def)

lemma mul_steps:
  "mul x (of_cnum y) =
     (if valid y \<and> valid (c_product x y) then Inr (c_product x y) else Inl InvalidParam)"
  using Complex2_fields [of "c_product x y"]
  by (simp add: mul_def parse_of_cnum_eq and_then_def c_product_def)

lemma log_steps:
  "log_c x = (if valid (c_log x) then Inr (c_log x) else Inl InvalidParam)"
  using Complex2_fields [of "c_log x"]
  by (simp add: log_c_def c_log_def Let_def)

lemma div_body_quotient:
  assumes "\<not> isNaN c" "\<not> isNaN d"
  shows "(if flt (Math_abs c) (Math_abs d)
            then (let x = fdiv c d; t = fadd (fmul c x) d
                  in Complex2 (fdiv (fadd (fmul (re z) x) (im z)) t) (fdiv (fsub (fmul (im z) x) (re z)) t))
          else (let x = fdiv d c; t = fadd (fmul d x) c
                in Complex2 (fdiv (fadd (re z) (fmul (im z) x)) t) (fdiv (fsub (im z) (fmul (re z) x)) t)))
     = (if valid (c_quotient z \<lparr>re = c, im = d\<rparr>) then Inr (c_quotient z \<lparr>re = c, im = d\<rparr>)
        else Inl InvalidParam)"
proof (cases "flt (Math_abs c) (Math_abs d)")
  case True
  then show ?thesis
    by (simp add: c_quotient_def smith_quotient_def Let_def Complex2_eq valid_def)
next
  case False
  with assms have "fge (Math_abs c) (Math_abs d)" by (intro not_flt_imp_fge)
  with False show ?thesis
    by (simp add: c_quotient_def smith_quotient_def Let_def Complex2_eq valid_def)
qed

lemma div_steps:
  "div_c x (of_cnum y) =
     (if \<not> valid y then Inl InvalidParam
      else if feq (to_double 0) (re y) \<and> feq (to_double 0) (im y) then Inl DivisionByZero
      else if valid (c_quotient x y) then Inr (c_quotient x y)
      else Inl InvalidParam)"
proof (cases "valid y")
  case False
  then show ?thesis by (simp add: div_c_def parse_of_cnum_eq and_then_def)
next
  case True
  then have nn: "\<not> isNaN (re y)" "\<not> isNaN (im y)" by (simp_all add: valid_fields)
  have y: "\<lparr>re = re y, im = im y\<rparr> = y" by simp
  show ?thesis
    using True div_body_quotient [OF nn, of x] unfolding y
    by (simp add: div_c_def parse_of_cnum_eq and_then_def Let_def)
qed

lemma div_by_two_steps:
  "div_c x (Number (Fin False 2)) =
     (if valid (c_quotient x \<lparr>re = Fin False 2, im = Fin False 0\<rparr>)
        then Inr (c_quotient x \<lparr>re = Fin False 2, im = Fin False 0\<rparr>)
      else Inl InvalidParam)"
  using div_body_quotient [of "Fin False 2" "Fin False 0" x]
  by (simp add: div_c_def parse_def and_then_def Let_def signed_def)

lemma i_minus_zero_iff:
  assumes "is_double (re z)" "is_double (im z)"
  shows "feq (to_double 0) (re (c_difference I z)) \<and> feq (to_double 0) (im (c_difference I z))
     \<longleftrightarrow> feq (re z) (to_double 0) \<and> feq (im z) (to_double 1)"
  using assms fsub_zero_iff [of False 0 "re z"] fsub_zero_iff [of False 1 "im z"]
    feq_sym [of "re z" "Fin False 0"] feq_sym [of "im z" "Fin False 1"]
  by (simp add: c_difference_def I_def)

lemma valid_i [simp]: "valid I"
  by (simp add: valid_def I_def)

text \<open>
  C9, as amended. For a value \<open>z\<close> whose fields are doubles, \<^verbatim>\<open>atan\<close> throws \<^verbatim>\<open>"DIV/0"\<close>
  exactly when \<open>z.re = 0\<close> and \<open>z.im = 1\<close>, that is at \<open>z = i\<close>. At every other input it
  follows the chain \<^verbatim>\<open>I.add(z).div(I.sub(z)).log().mul(I).div(2)\<close>: when \<open>z\<close> and the pair
  of every step pass the check of the constructor it returns the last pair, the value of
  the chain, and otherwise it throws \<^verbatim>\<open>"Invalid Param"\<close>.
\<close>

theorem atan_division_by_zero:
  assumes "is_double (re z)" "is_double (im z)"
  shows "(atan_c z = Inl DivisionByZero \<longleftrightarrow>
      feq (re z) (to_double 0) \<and> feq (im z) (to_double 1)) \<and>
    atan_c z =
      (if feq (re z) (to_double 0) \<and> feq (im z) (to_double 1) then Inl DivisionByZero
       else if list_all valid (atan_steps z) then Inr (last (atan_steps z))
       else Inl InvalidParam)"
proof -
  define s where "s = c_sum I z"
  define u where "u = c_difference I z"
  define q where "q = c_quotient s u"
  define l where "l = c_log q"
  define m where "m = c_product l I"
  define r where "r = c_quotient m \<lparr>re = Fin False 2, im = Fin False 0\<rparr>"
  have steps: "atan_steps z = [z, s, u, q, l, m, r]"
    unfolding atan_steps_def Let_def r_def m_def l_def q_def u_def s_def by simp
  have zero: "feq (to_double 0) (re u) \<and> feq (to_double 0) (im u)
     \<longleftrightarrow> feq (re z) (to_double 0) \<and> feq (im z) (to_double 1)"
    unfolding u_def using assms by (rule i_minus_zero_iff)
  have at_i: "valid z \<and> valid s \<and> valid u"
    if "feq (re z) (to_double 0)" "feq (im z) (to_double 1)"
  proof -
    from that obtain t where r: "re z = Fin t 0"
      by (cases "re z") (auto simp: signed_def split: if_splits)
    from that obtain t' n where i: "im z = Fin t' n" "signed t' n = 1"
      by (cases "im z") (auto simp: signed_def)
    with assms(2) have "0 \<le> n" by (simp add: is_double_def)
    with i have i': "im z = Fin False 1"
      by (auto simp: signed_def split: if_splits)
    show ?thesis
      by (simp add: valid_def s_def u_def c_sum_def c_difference_def I_def r i' fp_eval
          to_double_def)
  qed
  have "atan_c z =
     and_then (if valid z \<and> valid s then Inr s else Inl InvalidParam) (\<lambda>t1.
     and_then (if valid z \<and> valid u then Inr u else Inl InvalidParam) (\<lambda>u'.
     and_then (div_c t1 (of_cnum u')) (\<lambda>t2.
     and_then (log_c t2) (\<lambda>t3.
     and_then (mul t3 (of_cnum I)) (\<lambda>t4.
     div_c t4 (Number (to_double 2)))))))"
    unfolding atan_c_def add_steps sub_steps s_def u_def ..
  also have "\<dots> =
      (if feq (re z) (to_double 0) \<and> feq (im z) (to_double 1) then Inl DivisionByZero
       else if list_all valid (atan_steps z) then Inr (last (atan_steps z))
       else Inl InvalidParam)"
    unfolding steps
    using zero at_i
    by (simp add: and_then_def div_steps log_steps mul_steps div_by_two_steps
        q_def [symmetric] l_def [symmetric] m_def [symmetric] r_def [symmetric])
  finally have "atan_c z =
      (if feq (re z) (to_double 0) \<and> feq (im z) (to_double 1) then Inl DivisionByZero
       else if list_all valid (atan_steps z) then Inr (last (atan_steps z))
       else Inl InvalidParam)" .
  then show ?thesis by simp
qed

theorem atan_division_by_zero_witness:
  "is_double (re I) \<and> is_double (im I) \<and> atan_c I = Inl DivisionByZero \<and>
   is_double (to_double 1) \<and> is_double (to_double 0) \<and>
   \<not> feq (re \<lparr>re = to_double 1, im = to_double 0\<rparr>) (to_double 0) \<and>
   atan_c \<lparr>re = to_double 1, im = to_double 0\<rparr> \<noteq> Inl DivisionByZero \<and>
   list_all valid (atan_steps \<lparr>re = to_double 0, im = to_double 0\<rparr>) \<and>
   last (atan_steps \<lparr>re = to_double 0, im = to_double 0\<rparr>)
     = \<lparr>re = to_double 0, im = to_double 0\<rparr> \<and>
   atan_c \<lparr>re = to_double 0, im = to_double 0\<rparr> = Inr \<lparr>re = to_double 0, im = to_double 0\<rparr>"
proof -
  have st: "atan_steps \<lparr>re = Fin False 0, im = Fin False 0\<rparr> =
      [\<lparr>re = Fin False 0, im = Fin False 0\<rparr>, \<lparr>re = Fin False 0, im = Fin False 1\<rparr>,
       \<lparr>re = Fin False 0, im = Fin False 1\<rparr>, \<lparr>re = Fin False 1, im = Fin False 0\<rparr>,
       \<lparr>re = Fin False 0, im = Fin False 0\<rparr>, \<lparr>re = Fin False 0, im = Fin False 0\<rparr>,
       \<lparr>re = Fin False 0, im = Fin False 0\<rparr>]"
    by (simp add: atan_steps_def c_sum_def c_difference_def c_quotient_def smith_quotient_def
        c_log_def c_product_def logsq2_def Math_atan2_def I_def fp_eval to_double_def)
  show ?thesis
    using atan_division_by_zero [of I]
      atan_division_by_zero [of "\<lparr>re = to_double 1, im = to_double 0\<rparr>"]
      atan_division_by_zero [of "\<lparr>re = to_double 0, im = to_double 0\<rparr>"]
    by (simp add: I_def signed_def st valid_def)
qed

text \<open>
  C9 as stated fails at \<open>z = -i\<close>: the quotient \<open>(i + z) / (i - z)\<close> is \<open>0\<close>, its logarithm is
  the pair \<open>(-Infinity, 0)\<close>, and the constructor rejects it, so that \<^verbatim>\<open>atan\<close> throws
  \<^verbatim>\<open>"Invalid Param"\<close>.
\<close>

theorem atan_minus_i_counterexample:
  "is_double (to_double 0) \<and> is_double (Fin True 1) \<and>
   Complex2 (to_double 0) (Fin True 1) = Inr \<lparr>re = to_double 0, im = Fin True 1\<rparr> \<and>
   atan_c \<lparr>re = to_double 0, im = Fin True 1\<rparr> = Inl InvalidParam"
  by (simp add: atan_c_def add_def sub_def div_c_def log_c_def logsq2_def Math_atan2_def
      I_def of_cnum_def fp_eval to_double_def)

section \<open>Bounds on a rounded result\<close>

lemma round_units_lower_grid:
  assumes p: "1 \<le> p" and k: "0 \<le> k" "k \<le> 2 ^ p" and M: "of_int (k * 2 ^ P) \<le> M"
  shows "k * 2 ^ P \<le> round_units p M"
proof -
  define F where "F = \<lfloor>M\<rfloor>"
  define j where "j = nat (bitlen F - int p)"
  have n: "round_units p M = rne (M / 2 ^ j) * 2 ^ j"
    by (simp add: round_units_def Let_def F_def j_def)
  have FP: "k * 2 ^ P \<le> F"
    using M by (simp add: F_def le_floor_iff)
  show ?thesis
  proof (cases "j \<le> P")
    case True
    have "(2::real) ^ P = 2 ^ (P - j) * 2 ^ j"
      using True by (simp flip: power_add)
    then have "real_of_int (k * 2 ^ (P - j)) \<le> M / 2 ^ j"
      using M by (simp add: pos_le_divide_eq)
    then have "k * 2 ^ (P - j) \<le> rne (M / 2 ^ j)" by (rule rne_lower)
    then have "k * 2 ^ (P - j) * 2 ^ j \<le> rne (M / 2 ^ j) * 2 ^ j"
      by (simp add: mult_right_mono)
    moreover have "(2::int) ^ P = 2 ^ (P - j) * 2 ^ j"
      using True by (simp flip: power_add)
    ultimately show ?thesis using n by simp
  next
    case False
    then have jP: "P < j" by simp
    then have jb: "int j = bitlen F - int p" by (simp add: j_def)
    with jP have "0 < bitlen F" by linarith
    then have Fpos: "0 < F" using bitlen_eq_zero_iff [of F] by simp
    define c where "c = nat (bitlen F - 1)"
    have cj: "c = j + (p - 1)" using jb p by (simp add: c_def)
    have "2 ^ c \<le> F"
      using bitlen_bounds [OF Fpos] by (simp add: c_def)
    then have "real_of_int (2 ^ c) \<le> real_of_int F" by (simp only: of_int_le_iff)
    also have "\<dots> \<le> M" by (simp add: F_def)
    finally have "2 ^ c \<le> M" by simp
    then have "real_of_int (2 ^ (p - 1)) \<le> M / 2 ^ j"
      by (simp add: pos_le_divide_eq cj power_add mult.commute)
    then have "2 ^ (p - 1) \<le> rne (M / 2 ^ j)" by (rule rne_lower)
    then have a: "2 ^ (p - 1) * 2 ^ j \<le> rne (M / 2 ^ j) * 2 ^ j"
      by (simp add: mult_right_mono)
    have "k * 2 ^ P \<le> (2::int) ^ p * 2 ^ P"
      using k(2) by (simp add: mult_right_mono)
    also have "\<dots> \<le> 2 ^ (p - 1) * 2 ^ j"
      unfolding power_add [symmetric] using jP p by (intro power_increasing) simp_all
    also note a
    finally show ?thesis by (simp only: n)
  qed
qed

lemma round_units_upper_grid:
  assumes p: "1 \<le> p" and k: "k < 2 ^ p" and M: "M \<le> of_int (k * 2 ^ Q)"
  shows "round_units p M \<le> k * 2 ^ Q"
proof -
  define F where "F = \<lfloor>M\<rfloor>"
  define j where "j = nat (bitlen F - int p)"
  have n: "round_units p M = rne (M / 2 ^ j) * 2 ^ j"
    by (simp add: round_units_def Let_def F_def j_def)
  have "\<lfloor>M\<rfloor> \<le> \<lfloor>real_of_int (k * 2 ^ Q)\<rfloor>"
    using M by (rule floor_mono)
  then have FQ: "F \<le> k * 2 ^ Q"
    by (simp only: floor_of_int F_def)
  have jQ: "j \<le> Q"
  proof (cases "0 < F")
    case False
    then have "bitlen F = 0" by (simp add: bitlen_eq_zero_iff)
    then show ?thesis by (simp add: j_def)
  next
    case True
    have "2 ^ nat (bitlen F - 1) \<le> F"
      using bitlen_bounds [OF True] by simp
    also have "\<dots> \<le> k * 2 ^ Q" by (rule FQ)
    also have "\<dots> < 2 ^ p * 2 ^ Q"
      using k by (simp add: mult_strict_right_mono)
    finally have "(2::int) ^ nat (bitlen F - 1) < 2 ^ (p + Q)" by (simp add: power_add)
    then have "nat (bitlen F - 1) < p + Q" by simp
    then show ?thesis by (simp add: j_def)
  qed
  have "(2::real) ^ Q = 2 ^ (Q - j) * 2 ^ j"
    using jQ by (simp flip: power_add)
  with M have "M / 2 ^ j \<le> real_of_int (k * 2 ^ (Q - j))"
    by (simp add: pos_divide_le_eq)
  then have "rne (M / 2 ^ j) \<le> k * 2 ^ (Q - j)" by (rule rne_upper)
  then have "rne (M / 2 ^ j) * 2 ^ j \<le> k * 2 ^ (Q - j) * 2 ^ j"
    by (simp add: mult_right_mono)
  moreover have "(2::int) ^ Q = 2 ^ (Q - j) * 2 ^ j"
    using jQ by (simp flip: power_add)
  ultimately show ?thesis using n by simp
qed

lemma round_fp_lower_grid:
  assumes p: "1 \<le> p" and k: "0 \<le> k" "k \<le> 2 ^ p" and d: "d \<le> e"
    and m: "of_int k / 2 ^ d \<le> m"
  shows "round_fp p e w s m = Infty s \<or>
    (\<exists>m'. round_fp p e w s m = Fin s m' \<and> of_int k / 2 ^ d \<le> m')"
proof -
  define n where "n = round_units p (m * 2 ^ e)"
  have e: "(2::real) ^ e = 2 ^ (e - d) * 2 ^ d"
    using d by (simp flip: power_add)
  have "of_int k / 2 ^ d * 2 ^ e \<le> m * 2 ^ e"
    using m by (rule mult_right_mono) simp
  then have "real_of_int (k * 2 ^ (e - d)) \<le> m * 2 ^ e"
    by (simp add: e)
  then have "k * 2 ^ (e - d) \<le> n"
    unfolding n_def using p k by (intro round_units_lower_grid)
  then have "real_of_int (k * 2 ^ (e - d)) \<le> real_of_int n"
    by (simp only: of_int_le_iff)
  then have "of_int k / 2 ^ d \<le> real_of_int n / 2 ^ e"
    by (simp add: e field_simps)
  then show ?thesis
    by (simp add: round_fp_def n_def Let_def)
qed

lemma round_fp_upper_grid:
  assumes p: "1 \<le> p" and k: "k < 2 ^ p" and d: "d \<le> e" and w: "p + e \<le> w"
    and m: "0 \<le> m" "m \<le> of_int k / 2 ^ d"
  shows "\<exists>m'. round_fp p e w s m = Fin s m' \<and> 0 \<le> m' \<and> m' \<le> of_int k / 2 ^ d"
proof -
  define n where "n = round_units p (m * 2 ^ e)"
  have e: "(2::real) ^ e = 2 ^ (e - d) * 2 ^ d"
    using d by (simp flip: power_add)
  have "m * 2 ^ e \<le> of_int k / 2 ^ d * 2 ^ e"
    using m(2) by (rule mult_right_mono) simp
  then have "m * 2 ^ e \<le> real_of_int (k * 2 ^ (e - d))"
    by (simp add: e)
  then have u: "n \<le> k * 2 ^ (e - d)"
    unfolding n_def using p k by (intro round_units_upper_grid)
  also have "\<dots> < 2 ^ p * 2 ^ (e - d)"
    using k by (simp add: mult_strict_right_mono)
  also have "\<dots> \<le> (2::int) ^ w"
    unfolding power_add [symmetric] using w by (intro power_increasing) simp_all
  finally have r: "round_fp p e w s m = Fin s (of_int n / 2 ^ e)"
    by (simp add: round_fp_def n_def)
  have "0 \<le> n"
    unfolding n_def using m(1) by (intro round_units_nonneg) simp
  then have "0 \<le> real_of_int n / 2 ^ e" by simp
  moreover have "real_of_int n \<le> real_of_int (k * 2 ^ (e - d))"
    using u by (simp only: of_int_le_iff)
  then have "real_of_int n / 2 ^ e \<le> of_int k / 2 ^ d"
    by (simp add: e field_simps)
  ultimately show ?thesis using r by blast
qed

lemma round_double_lower:
  assumes "0 \<le> k" "k \<le> 2 ^ 53" "d \<le> 1074" "of_int k / 2 ^ d \<le> m"
  shows "round_double s m = Infty s \<or>
    (\<exists>m'. round_double s m = Fin s m' \<and> of_int k / 2 ^ d \<le> m')"
  unfolding round_double_def using assms by (intro round_fp_lower_grid) simp_all

lemma round_double_upper:
  assumes "k < 2 ^ 53" "d \<le> 1074" "0 \<le> m" "m \<le> of_int k / 2 ^ d"
  shows "\<exists>m'. round_double s m = Fin s m' \<and> 0 \<le> m' \<and> m' \<le> of_int k / 2 ^ d"
  unfolding round_double_def using assms by (intro round_fp_upper_grid) simp_all

lemma round_double_between:
  assumes "0 \<le> k" "k \<le> l" "l < 2 ^ 53" "of_int k \<le> m * 2 ^ d" "m * 2 ^ d \<le> of_int l" "d \<le> 1074"
  shows "\<exists>m'. round_double s m = Fin s m' \<and> of_int k \<le> m' * 2 ^ d \<and> m' * 2 ^ d \<le> of_int l"
proof -
  have lo: "of_int k / 2 ^ d \<le> m" and hi: "m \<le> of_int l / 2 ^ d"
    using assms(4,5) by (simp_all add: field_simps)
  have "0 \<le> real_of_int k / 2 ^ d" using assms(1) by simp
  with lo have m0: "0 \<le> m" by linarith
  from round_double_upper [OF assms(3,6) m0 hi, of s]
  obtain m' where m': "round_double s m = Fin s m'" "m' \<le> of_int l / 2 ^ d" by blast
  have "k \<le> 2 ^ 53" using assms(2,3) by linarith
  from round_double_lower [OF assms(1) this assms(6) lo, of s] m'(1)
  have "of_int k / 2 ^ d \<le> m'" by auto
  with m' show ?thesis by (auto simp: field_simps)
qed

section \<open>The logarithm of the magnitude\<close>

lemma pi_ge_3: "3 \<le> pi"
  using sin_x_le_x [of "pi / 6"] by (simp add: sin_30)

lemma cos_neg_2_4:
  assumes "2 \<le> x" "x \<le> 4"
  shows "cos (x::real) < 0"
proof -
  have "- (pi / 2) < x - pi" using assms(1) pi_less_4 by simp
  moreover have "x - pi < pi / 2" using assms(2) pi_ge_3 by simp
  ultimately have "0 < cos (x - pi)" by (rule cos_gt_zero_pi)
  then show ?thesis by simp
qed

lemma fmul_commute: "fmul a b = fmul b a"
  by (cases a; cases b) (auto simp: mult.commute intro!: arg_cong2 [where f = round_double])

lemma Math_abs_nonneg: "\<not> sign_bit a \<Longrightarrow> Math_abs a = a"
  by (cases a) simp_all

lemma Math_log_nonneg_not_NaN: "\<not> sign_bit x \<Longrightarrow> x \<noteq> NaN \<Longrightarrow> Math_log x \<noteq> NaN"
  by (cases x) (auto simp: to_double_def)

text \<open>
  C2, as amended. \<^verbatim>\<open>logsq2(re, im)\<close> is \<open>log \<bar>im\<bar>\<close> when \<open>re = 0\<close>, else \<open>log \<bar>re\<bar>\<close> when
  \<open>im = 0\<close>, else \<open>0.5 * log (re\<^sup>2 + im\<^sup>2)\<close> when both magnitudes are below \<open>1000\<close>, and
  otherwise \<open>log (re / cos (atan2 (im, re)))\<close> with \<open>re\<close> itself, with its sign, as the
  numerator. With the absolute value of \<open>re\<close> as the numerator the contract holds for
  every \<open>re\<close> whose sign bit is clear.
\<close>

theorem logsq2_signed_numerator:
  "logsq2 a b = logsq2_amended a b \<and>
   (\<not> sign_bit a \<longrightarrow> logsq2 a b = logsq2_claimed a b)"
proof -
  have "logsq2 a b = logsq2_amended a b"
    by (simp add: logsq2_def logsq2_amended_def Let_def fmul_commute [of "Fin False (1 / 2)"])
  moreover have "logsq2_amended a b = logsq2_claimed a b" if "\<not> sign_bit a"
    using that by (simp add: logsq2_amended_def logsq2_claimed_def Math_abs_nonneg)
  ultimately show ?thesis by simp
qed

theorem logsq2_signed_numerator_witness:
  "\<not> sign_bit (to_double 2000) \<and>
   logsq2 (to_double 2000) (to_double 1) = logsq2_claimed (to_double 2000) (to_double 1) \<and>
   logsq2 (to_double 0) (to_double 1) = to_double 0"
proof -
  have "logsq2_amended (to_double 0) (to_double 1) = to_double 0"
    by (simp add: logsq2_amended_def to_double_def)
  moreover have "logsq2 (to_double 0) (to_double 1) = logsq2_amended (to_double 0) (to_double 1)"
    using logsq2_signed_numerator [of "to_double 0" "to_double 1"] by blast
  moreover have "\<not> sign_bit (to_double 2000)" by simp
  moreover from this
  have "logsq2 (to_double 2000) (to_double 1) = logsq2_claimed (to_double 2000) (to_double 1)"
    using logsq2_signed_numerator [of "to_double 2000" "to_double 1"] by blast
  ultimately show ?thesis by (simp only: simp_thms)
qed

lemma atan2_second_quadrant:
  "\<exists>h. Math_atan2 (Fin False 1) (Fin True 2000) = Fin False h \<and> 2 \<le> h \<and> h \<le> 4"
proof -
  define t :: real where "t = pi - arctan (1 / 2000)"
  have "arctan (1 / 2000) \<le> arctan 1" by (rule arctan_monotone') simp
  then have "arctan (1 / 2000) \<le> pi / 4" by (simp add: arctan_one)
  moreover have "0 \<le> arctan (1 / 2000 :: real)" by simp
  ultimately have "2 \<le> t" "t \<le> 4"
    unfolding t_def using pi_ge_3 pi_less_4 by linarith+
  then have "of_int 2 \<le> t * 2 ^ 0" "t * 2 ^ 0 \<le> of_int 4" by simp_all
  from round_double_between [OF _ _ _ this, of False]
  obtain h where "round_double False t = Fin False h" "2 \<le> h" "h \<le> 4" by auto
  then show ?thesis
    by (simp add: Math_atan2_def t_def)
qed

lemma cos_second_quadrant:
  assumes "2 \<le> h" "h \<le> 4"
  shows "\<exists>c. Math_cos (Fin False h) = Fin True c \<and> 0 \<le> c \<and> c \<le> 1"
proof -
  have neg: "cos h < 0" using assms by (rule cos_neg_2_4)
  have "\<bar>cos h\<bar> \<le> of_int 1 / 2 ^ 0" by (simp add: abs_le_iff)
  from round_double_upper [OF _ _ _ this, of True]
  obtain c where "round_double True \<bar>cos h\<bar> = Fin True c" "0 \<le> c" "c \<le> 1" by auto
  then show ?thesis using neg by (simp add: to_double_def)
qed

text \<open>
  C2 as stated fails for a negative \<open>re\<close> in the last case: at \<open>(-2000, 1)\<close> the angle is
  in the second quadrant, its cosine is negative, \<open>\<bar>re\<bar> / cos\<close> is negative and its
  logarithm is NaN, while \<open>re / cos\<close> is positive and \<^verbatim>\<open>logsq2\<close> returns a number.
\<close>

theorem logsq2_abs_numerator_counterexample:
  "logsq2_claimed (Fin True 2000) (Fin False 1) = NaN \<and>
   logsq2 (Fin True 2000) (Fin False 1) \<noteq> NaN \<and>
   is_double (Fin True 2000) \<and> is_double (Fin False 1)"
proof -
  obtain h where h: "Math_atan2 (Fin False 1) (Fin True 2000) = Fin False h" "2 \<le> h" "h \<le> 4"
    using atan2_second_quadrant by blast
  obtain c where c: "Math_cos (Fin False h) = Fin True c" "0 \<le> c" "c \<le> 1"
    using cos_second_quadrant [OF h(2,3)] by blast
  have code: "logsq2 (Fin True 2000) (Fin False 1) = Math_log (fdiv (Fin True 2000) (Fin True c))"
    using h c by (simp add: logsq2_def signed_def)
  have claim: "logsq2_claimed (Fin True 2000) (Fin False 1)
      = Math_log (fdiv (Fin False 2000) (Fin True c))"
    using h c by (simp add: logsq2_claimed_def signed_def)
  have "\<not> sign_bit (fdiv (Fin True 2000) (Fin True c)) \<and> fdiv (Fin True 2000) (Fin True c) \<noteq> NaN"
    using round_double_cases [of False "2000 / c"] by auto
  then have 1: "logsq2 (Fin True 2000) (Fin False 1) \<noteq> NaN"
    unfolding code by (intro Math_log_nonneg_not_NaN) simp_all
  have 2: "Math_log (fdiv (Fin False 2000) (Fin True c)) = NaN"
  proof (cases "c = 0")
    case True
    then show ?thesis by simp
  next
    case False
    with c have "of_int 1 / 2 ^ 0 \<le> 2000 / c" by (simp add: field_simps)
    from round_double_lower [OF _ _ _ this, of True]
    have "round_double True (2000 / c) = Infty True \<or>
      (\<exists>q. round_double True (2000 / c) = Fin True q \<and> 1 \<le> q)" by simp
    then show ?thesis using False by auto
  qed
  have "is_double (Fin True 2000)" by (simp add: is_double_def)
  with 1 2 claim show ?thesis by simp
qed

section \<open>Powers of an imaginary base\<close>

lemma fmod_4_int:
  "fmod (Fin t (of_int n)) (Fin False 4) = Fin t (of_int (n mod 4))"
proof -
  have "\<lfloor>real_of_int n / 4\<rfloor> = n div 4"
    using floor_divide_of_int_eq [of n 4, where ?'a = real] by simp
  moreover have "n - 4 * (n div 4) = n mod 4"
    by (simp add: minus_mult_div_eq_mod mult.commute)
  then have "real_of_int n - 4 * real_of_int (n div 4) = real_of_int (n mod 4)"
    by (metis of_int_diff of_int_mult of_int_numeral)
  ultimately show ?thesis by simp
qed

lemma rem4_case_nonneg_int:
  "rem4_case (Fin False (of_int n)) = Some (nat (n mod 4))"
proof -
  have "0 \<le> n mod 4" "n mod 4 < 4" by simp_all
  then have "n mod 4 = 0 \<or> n mod 4 = 1 \<or> n mod 4 = 2 \<or> n mod 4 = 3" by linarith
  moreover have k: "fmod (Fin False (of_int n)) (to_double 4) = Fin False (of_int (n mod 4))"
    using fmod_4_int [of False n] by simp
  ultimately show ?thesis
    unfolding rem4_case_def k Let_def by (auto simp: signed_def)
qed

lemma rem4_case_neg_int:
  "rem4_case (Fin True (of_int n)) = (if n mod 4 = 0 then Some 0 else None)"
proof -
  have "0 \<le> n mod 4" by simp
  then have "- real_of_int (n mod 4) \<le> 0" by simp
  moreover have k: "fmod (Fin True (of_int n)) (to_double 4) = Fin True (of_int (n mod 4))"
    using fmod_4_int [of True n] by simp
  ultimately show ?thesis
    unfolding rem4_case_def k Let_def by (auto simp: signed_def)
qed

lemma rem4_case_not_int:
  assumes "\<not> is_int m"
  shows "rem4_case (Fin t m) = None"
proof -
  define r where "r = m - 4 * real_of_int \<lfloor>m / 4\<rfloor>"
  have "r \<noteq> real_of_int i" for i
  proof
    assume "r = real_of_int i"
    then have "m = real_of_int (i + 4 * \<lfloor>m / 4\<rfloor>)" by (simp add: r_def)
    then have "is_int m" unfolding is_int_def by (metis floor_of_int)
    with assms show False by simp
  qed
  from this [of 0] this [of 1] this [of 2] this [of 3] this [of "-1"] this [of "-2"] this [of "-3"]
  show ?thesis
    by (auto simp: rem4_case_def r_def signed_def)
qed

text \<open>
  C4, as amended. For a base \<open>(0, b)\<close> with \<open>b\<close> not zero and an exponent \<open>(c, 0)\<close>,
  \<^verbatim>\<open>pow\<close> goes by the remainder \<^verbatim>\<open>c % 4\<close> of JavaScript, which has the sign of \<open>c\<close>. When
  the remainder is \<open>0\<close>, \<open>1\<close>, \<open>2\<close> or \<open>3\<close> the closed form of that index is handed to the
  constructor; otherwise \<^verbatim>\<open>pow\<close> takes its general formula. For an integer \<open>n \<ge> 0\<close> the
  remainder is \<open>n mod 4\<close>; for \<open>-n\<close> it selects a case only when \<open>n\<close> is a multiple of \<open>4\<close>;
  for an exponent that is not an integer it selects none.
\<close>

theorem pow_imaginary_base:
  assumes "feq (re x) (to_double 0)" "\<not> feq (im x) (to_double 0)"
    and "parse y = Inr (c, d)" "feq d (to_double 0)"
  shows "pow_c x y =
      (case rem4_case c of
         Some i \<Rightarrow> Complex2 (re (closed_form (im x) c i)) (im (closed_form (im x) c i))
       | None \<Rightarrow> pow_general x c d) \<and>
    rem4_case (Fin False (of_int n)) = Some (nat (n mod 4)) \<and>
    rem4_case (Fin True (of_int n)) = (if n mod 4 = 0 then Some 0 else None) \<and>
    (\<not> is_int m \<longrightarrow> rem4_case (Fin t m) = None)"
proof -
  have "pow_c x y =
      (case rem4_case c of
         Some i \<Rightarrow> Complex2 (re (closed_form (im x) c i)) (im (closed_form (im x) c i))
       | None \<Rightarrow> pow_general x c d)"
    using assms by (simp add: pow_c_def and_then_def Let_def rem4_case_def closed_form_def)
  then show ?thesis
    using rem4_case_nonneg_int rem4_case_neg_int rem4_case_not_int by blast
qed

lemma not_is_int_half: "\<not> is_int (1 / 2)"
  by (simp add: is_int_def)

theorem pow_imaginary_base_witness:
  "feq (re \<lparr>re = to_double 0, im = to_double 5\<rparr>) (to_double 0) \<and>
   \<not> feq (im \<lparr>re = to_double 0, im = to_double 5\<rparr>) (to_double 0) \<and>
   parse (Pair (to_double 2) (to_double 0)) = Inr (to_double 2, to_double 0) \<and>
   rem4_case (to_double 2) = Some 2 \<and>
   pow_c \<lparr>re = to_double 0, im = to_double 5\<rparr> (Pair (to_double 2) (to_double 0))
     = Inr \<lparr>re = Fin True 25, im = to_double 0\<rparr> \<and>
   \<not> is_int (1 / 2) \<and> rem4_case (Fin False (1 / 2)) = None"
proof -
  have p: "parse (Pair (to_double 2) (to_double 0)) = Inr (to_double 2, to_double 0)"
    by (simp add: parse_def)
  have z: "feq (re \<lparr>re = to_double 0, im = to_double 5\<rparr>) (to_double 0)"
    "\<not> feq (im \<lparr>re = to_double 0, im = to_double 5\<rparr>) (to_double 0)"
    "feq (to_double 0) (to_double 0)"
    by (simp_all add: signed_def)
  note w = pow_imaginary_base [OF z(1,2) p z(3), of 2 "1 / 2" False]
  have r: "rem4_case (to_double 2) = Some 2"
    using w by simp
  have "pow_c \<lparr>re = to_double 0, im = to_double 5\<rparr> (Pair (to_double 2) (to_double 0))
     = Complex2 (re (closed_form (to_double 5) (to_double 2) 2))
         (im (closed_form (to_double 5) (to_double 2) 2))"
    using w r by simp
  also have "\<dots> = Inr \<lparr>re = Fin True 25, im = to_double 0\<rparr>"
    by (simp add: closed_form_def Complex2_eq is_odd_int_def is_int_def signed_def)
  finally show ?thesis
    using p z r w not_is_int_half by simp
qed

lemma atan2_quarter_turn:
  "\<exists>h. Math_atan2 (Fin False 1) (Fin False 0) = Fin False h \<and> 3 / 2 \<le> h \<and> h \<le> 2"
proof -
  have "of_int 3 \<le> pi / 2 * 2 ^ 1" "pi / 2 * 2 ^ 1 \<le> of_int 4"
    using pi_ge_3 pi_less_4 by simp_all
  from round_double_between [OF _ _ _ this, of False]
  obtain h where "round_double False (pi / 2) = Fin False h" "3 \<le> h * 2" "h * 2 \<le> 4" by auto
  then show ?thesis
    by (simp add: Math_atan2_def)
qed

lemma cos_sin_ge_half:
  assumes "3 / 4 \<le> g" "g \<le> (1::real)"
  shows "1 / 2 \<le> cos g" "1 / 2 \<le> sin g"
proof -
  have "cos (pi / 3) \<le> cos g"
    using assms pi_ge_3 by (intro cos_monotone_0_pi_le) simp_all
  then show "1 / 2 \<le> cos g" by (simp add: cos_60)
  have "sin (pi / 6) \<le> sin g"
    using assms pi_ge_3 pi_less_4 by (intro sin_monotone_2pi_le) simp_all
  then show "1 / 2 \<le> sin g" by (simp add: sin_30)
qed

lemma round_double_half_one:
  assumes "1 / 2 \<le> m" "m \<le> 1"
  shows "\<exists>m'. round_double s m = Fin s m' \<and> 1 / 2 \<le> m' \<and> m' \<le> 1"
proof -
  from assms have "of_int 1 \<le> m * 2 ^ 1" "m * 2 ^ 1 \<le> of_int 2" by simp_all
  from round_double_between [OF _ _ _ this, of s] show ?thesis by auto
qed

lemma round_double_three_quarters_one:
  assumes "3 / 4 \<le> m" "m \<le> 1"
  shows "\<exists>m'. round_double s m = Fin s m' \<and> 3 / 4 \<le> m' \<and> m' \<le> 1"
proof -
  from assms have "of_int 3 \<le> m * 2 ^ 2" "m * 2 ^ 2 \<le> of_int 4" by simp_all
  from round_double_between [OF _ _ _ this, of s] show ?thesis by auto
qed

lemma pow_i_half:
  "\<exists>A B. pow_c \<lparr>re = to_double 0, im = to_double 1\<rparr> (Pair (to_double (1 / 2)) (to_double 0))
      = Inr \<lparr>re = Fin False A, im = Fin False B\<rparr> \<and> 1 / 2 \<le> A \<and> 1 / 2 \<le> B"
proof -
  obtain h where h: "Math_atan2 (Fin False 1) (Fin False 0) = Fin False h" "3 / 2 \<le> h" "h \<le> 2"
    using atan2_quarter_turn by blast
  obtain g1 where g1: "round_double False (h / 2) = Fin False g1" "3 / 4 \<le> g1" "g1 \<le> 1"
    using round_double_three_quarters_one [of "h / 2" False] h by auto
  obtain g where g: "round_double False g1 = Fin False g" "3 / 4 \<le> g" "g \<le> 1"
    using round_double_three_quarters_one [of g1 False] g1 by auto
  note cs = cos_sin_ge_half [OF g(2,3)]
  obtain cc where cc: "round_double False (cos g) = Fin False cc" "1 / 2 \<le> cc" "cc \<le> 1"
    using round_double_half_one [of "cos g" False] cs by auto
  obtain ss where ss: "round_double False (sin g) = Fin False ss" "1 / 2 \<le> ss" "ss \<le> 1"
    using round_double_half_one [of "sin g" False] cs by auto
  obtain A where A: "round_double False cc = Fin False A" "1 / 2 \<le> A"
    using round_double_half_one [of cc False] cc by auto
  obtain B where B: "round_double False ss = Fin False B" "1 / 2 \<le> B"
    using round_double_half_one [of ss False] ss by auto
  have lg: "logsq2 (Fin False 0) (Fin False 1) = Fin False 0"
    by (simp add: logsq2_def to_double_def)
  have "pow_general \<lparr>re = Fin False 0, im = Fin False 1\<rparr> (Fin False (1 / 2)) (Fin False 0)
      = Inr \<lparr>re = Fin False A, im = Fin False B\<rparr>"
    using h g1 g cs cc ss A B
    by (simp add: pow_general_def lg fp_eval to_double_def)
  moreover have "pow_c \<lparr>re = Fin False 0, im = Fin False 1\<rparr> (Pair (Fin False (1 / 2)) (Fin False 0))
      = pow_general \<lparr>re = Fin False 0, im = Fin False 1\<rparr> (Fin False (1 / 2)) (Fin False 0)"
    by (simp add: pow_c_def fp_eval)
  ultimately show ?thesis using A B by simp
qed

text \<open>
  C4 as stated fails: for the exponent \<open>1/2\<close> no index is selected, \<open>i\<close> to the power
  \<open>1/2\<close> is computed by the general formula, and both fields of the result are at least
  \<open>1/2\<close>, so the result is none of the four closed forms. For the exponent \<open>-1\<close> the
  remainder is \<open>-1\<close>, not \<open>3\<close>, and the general formula is taken as well.
\<close>

theorem pow_closed_form_counterexample:
  "rem4_case (to_double (1 / 2)) = None \<and>
   pow_c \<lparr>re = to_double 0, im = to_double 1\<rparr> (Pair (to_double (1 / 2)) (to_double 0))
     = pow_general \<lparr>re = to_double 0, im = to_double 1\<rparr> (to_double (1 / 2)) (to_double 0) \<and>
   pow_c \<lparr>re = to_double 0, im = to_double 1\<rparr> (Pair (to_double (1 / 2)) (to_double 0))
     \<noteq> Inr (closed_form (to_double 1) (to_double (1 / 2)) 0) \<and>
   pow_c \<lparr>re = to_double 0, im = to_double 1\<rparr> (Pair (to_double (1 / 2)) (to_double 0))
     \<noteq> Inr (closed_form (to_double 1) (to_double (1 / 2)) 1) \<and>
   pow_c \<lparr>re = to_double 0, im = to_double 1\<rparr> (Pair (to_double (1 / 2)) (to_double 0))
     \<noteq> Inr (closed_form (to_double 1) (to_double (1 / 2)) 2) \<and>
   pow_c \<lparr>re = to_double 0, im = to_double 1\<rparr> (Pair (to_double (1 / 2)) (to_double 0))
     \<noteq> Inr (closed_form (to_double 1) (to_double (1 / 2)) 3) \<and>
   fmod (Fin True 1) (to_double 4) = Fin True 1 \<and>
   pow_c \<lparr>re = to_double 0, im = to_double 1\<rparr> (Pair (Fin True 1) (to_double 0))
     = pow_general \<lparr>re = to_double 0, im = to_double 1\<rparr> (Fin True 1) (to_double 0)"
proof -
  obtain A B where AB:
    "pow_c \<lparr>re = to_double 0, im = to_double 1\<rparr> (Pair (to_double (1 / 2)) (to_double 0))
      = Inr \<lparr>re = Fin False A, im = Fin False B\<rparr>" "1 / 2 \<le> A" "1 / 2 \<le> B"
    using pow_i_half by blast
  have "rem4_case (to_double (1 / 2)) = None"
    using rem4_case_not_int [OF not_is_int_half, of False] by simp
  moreover have "pow_c \<lparr>re = to_double 0, im = to_double 1\<rparr> (Pair (to_double (1 / 2)) (to_double 0))
     = pow_general \<lparr>re = to_double 0, im = to_double 1\<rparr> (to_double (1 / 2)) (to_double 0)"
    by (simp add: pow_c_def fp_eval)
  moreover have "fmod (Fin True 1) (to_double 4) = Fin True 1" by simp
  moreover have "pow_c \<lparr>re = to_double 0, im = to_double 1\<rparr> (Pair (Fin True 1) (to_double 0))
     = pow_general \<lparr>re = to_double 0, im = to_double 1\<rparr> (Fin True 1) (to_double 0)"
    by (simp add: pow_c_def fp_eval)
  moreover have "Inr \<lparr>re = Fin False A, im = Fin False B\<rparr>
      \<noteq> (Inr (closed_form (to_double 1) (to_double (1 / 2)) i) :: error + cnum)" for i
    using AB(2,3) by (auto simp: closed_form_def)
  ultimately show ?thesis
    unfolding AB(1) by blast
qed

section \<open>The square by \<^verbatim>\<open>pow\<close> and by \<^verbatim>\<open>mul\<close>\<close>

text \<open>
  The general formula of \<^verbatim>\<open>pow\<close> goes through \<^verbatim>\<open>Math.atan2\<close>, \<^verbatim>\<open>Math.log\<close>, \<^verbatim>\<open>Math.exp\<close>,
  \<^verbatim>\<open>Math.cos\<close> and \<^verbatim>\<open>Math.sin\<close>. The facts below bound \<open>\<pi>\<close>, \<open>ln 2\<close>, the exponential and
  the cosine next to \<open>\<pi> / 2\<close> closely enough to follow the formula at \<open>(1, 1)\<close>.
\<close>

lemma arctan_partial_sums:
  fixes x :: real
  assumes "0 \<le> x" "x \<le> 1"
  shows "(\<Sum>i<2 * n. (- 1) ^ i * (1 / real (i * 2 + 1) * x ^ (i * 2 + 1))) \<le> arctan x"
    and "arctan x \<le> (\<Sum>i<2 * n + 1. (- 1) ^ i * (1 / real (i * 2 + 1) * x ^ (i * 2 + 1)))"
proof -
  define a where "a i = 1 / real (i * 2 + 1) * x ^ (i * 2 + 1)" for i
  have ax: "\<bar>x\<bar> \<le> 1" using assms by simp
  have z: "a \<longlonglongrightarrow> 0"
    unfolding a_def using zeroseq_arctan_series [OF ax] .
  have p: "0 \<le> a i" for i
    using assms by (simp add: a_def)
  have m: "a (Suc i) \<le> a i" for i
  proof -
    have "x ^ (Suc i * 2 + 1) = x ^ (i * 2 + 1) * x ^ 2"
      by (simp add: power_add power2_eq_square mult.assoc)
    also have "\<dots> \<le> x ^ (i * 2 + 1) * 1"
      using assms by (intro mult_left_mono power_le_one) simp_all
    finally have 1: "x ^ (Suc i * 2 + 1) \<le> x ^ (i * 2 + 1)" by simp
    have 2: "1 / real (Suc i * 2 + 1) \<le> 1 / real (i * 2 + 1)"
      by (simp add: field_simps)
    show ?thesis
      unfolding a_def using 1 2 assms by (intro mult_mono) simp_all
  qed
  have s: "arctan x = (\<Sum>i. (- 1) ^ i * a i)"
    unfolding a_def by (rule arctan_series [OF ax])
  show "(\<Sum>i<2 * n. (- 1) ^ i * (1 / real (i * 2 + 1) * x ^ (i * 2 + 1))) \<le> arctan x"
    using summable_Leibniz'(2) [OF z p m, of n] by (simp add: s a_def)
  show "arctan x \<le> (\<Sum>i<2 * n + 1. (- 1) ^ i * (1 / real (i * 2 + 1) * x ^ (i * 2 + 1)))"
    using summable_Leibniz'(4) [OF z p m, of n] by (simp add: s a_def)
qed

lemma pi_lower: "3141592653589793238 / 10 ^ 18 \<le> pi"
proof -
  have l: "(\<Sum>i<2 * 7. (- 1) ^ i * (1 / real (i * 2 + 1) * (1 / 5) ^ (i * 2 + 1))) \<le> arctan (1 / 5)"
    by (rule arctan_partial_sums) simp_all
  have u: "arctan (1 / 239) \<le> (\<Sum>i<2 * 2 + 1. (- 1) ^ i * (1 / real (i * 2 + 1) * (1 / 239) ^ (i * 2 + 1)))"
    by (rule arctan_partial_sums) simp_all
  have "pi = 16 * arctan (1 / 5) - 4 * arctan (1 / 239)"
    using machin by simp
  with l u have "16 * (\<Sum>i<2 * 7. (- 1) ^ i * (1 / real (i * 2 + 1) * (1 / 5) ^ (i * 2 + 1)))
    - 4 * (\<Sum>i<2 * 2 + 1. (- 1) ^ i * (1 / real (i * 2 + 1) * (1 / 239) ^ (i * 2 + 1))) \<le> pi"
    by linarith
  moreover have "3141592653589793238 / 10 ^ 18 \<le>
    16 * (\<Sum>i<2 * 7. (- 1) ^ i * (1 / real (i * 2 + 1) * (1 / 5) ^ (i * 2 + 1)))
    - 4 * (\<Sum>i<2 * 2 + 1. (- 1) ^ i * (1 / real (i * 2 + 1) * (1 / 239) ^ (i * 2 + 1)))"
    by (simp add: eval_nat_numeral)
  ultimately show ?thesis by linarith
qed

lemma pi_upper: "pi \<le> 314159265358979324 / 10 ^ 17"
proof -
  have u: "arctan (1 / 5) \<le> (\<Sum>i<2 * 7 + 1. (- 1) ^ i * (1 / real (i * 2 + 1) * (1 / 5) ^ (i * 2 + 1)))"
    by (rule arctan_partial_sums) simp_all
  have l: "(\<Sum>i<2 * 2. (- 1) ^ i * (1 / real (i * 2 + 1) * (1 / 239) ^ (i * 2 + 1))) \<le> arctan (1 / 239)"
    by (rule arctan_partial_sums) simp_all
  have "pi = 16 * arctan (1 / 5) - 4 * arctan (1 / 239)"
    using machin by simp
  with l u have "pi \<le> 16 * (\<Sum>i<2 * 7 + 1. (- 1) ^ i * (1 / real (i * 2 + 1) * (1 / 5) ^ (i * 2 + 1)))
    - 4 * (\<Sum>i<2 * 2. (- 1) ^ i * (1 / real (i * 2 + 1) * (1 / 239) ^ (i * 2 + 1)))"
    by linarith
  moreover have "16 * (\<Sum>i<2 * 7 + 1. (- 1) ^ i * (1 / real (i * 2 + 1) * (1 / 5) ^ (i * 2 + 1)))
    - 4 * (\<Sum>i<2 * 2. (- 1) ^ i * (1 / real (i * 2 + 1) * (1 / 239) ^ (i * 2 + 1)))
    \<le> 314159265358979324 / 10 ^ 17"
    by (simp add: eval_nat_numeral)
  ultimately show ?thesis by linarith
qed

lemma rne_nearest:
  assumes "\<bar>x - of_int K\<bar> < 1 / 2"
  shows "rne x = K"
proof (cases "of_int K \<le> x")
  case True
  with assms have "\<lfloor>x\<rfloor> = K" by (simp add: floor_eq_iff)
  with assms True show ?thesis by (simp add: rne_def)
next
  case False
  with assms have f: "\<lfloor>x\<rfloor> = K - 1" by (simp add: floor_eq_iff)
  have "1 / 2 < x - of_int (K - 1)" using assms False by simp
  with f show ?thesis by (simp add: rne_def)
qed

lemma round_fp_nearest:
  assumes p: "1 \<le> p" and K: "2 ^ (p - 1) < K" "K < 2 ^ p" and d: "d \<le> e" and w: "p + e \<le> w"
    and m: "\<bar>m * 2 ^ d - of_int K\<bar> < 1 / 2"
  shows "round_fp p e w s m = Fin s (of_int K / 2 ^ d)"
proof -
  define x where "x = m * 2 ^ d"
  define F where "F = \<lfloor>m * 2 ^ e\<rfloor>"
  have e: "(2::real) ^ e = 2 ^ d * 2 ^ (e - d)"
    using d by (simp flip: power_add)
  have M: "m * 2 ^ e = x * 2 ^ (e - d)"
    by (simp add: x_def e)
  have "real_of_int (2 ^ (p - 1)) + 1 \<le> of_int K"
    using K(1) by (metis of_int_1 of_int_add of_int_le_iff zless_imp_add1_zle)
  with m have xl: "real_of_int (2 ^ (p - 1)) \<le> x"
    unfolding x_def by linarith
  have "of_int K + 1 \<le> real_of_int (2 ^ p)"
    using K(2) by (metis of_int_1 of_int_add of_int_le_iff zless_imp_add1_zle)
  with m have xu: "x < real_of_int (2 ^ p)"
    unfolding x_def by linarith
  have "real_of_int (2 ^ (p - 1) * 2 ^ (e - d)) \<le> m * 2 ^ e"
    unfolding M using xl by (simp add: mult_right_mono)
  then have Fl: "2 ^ (p - 1 + (e - d)) \<le> F"
    unfolding F_def by (simp add: le_floor_iff power_add)
  have "m * 2 ^ e < real_of_int (2 ^ p * 2 ^ (e - d))"
    unfolding M using xu by (simp add: mult_strict_right_mono)
  then have Fu: "F < 2 ^ (p + (e - d))"
    unfolding F_def by (simp add: floor_less_iff power_add)
  have nn: "nat (int p + int (e - d)) = p + (e - d)" by (simp add: nat_int_add)
  have pp: "p + (e - d) - Suc 0 = p - 1 + (e - d)" using p by simp
  from Fu have "bitlen F \<le> int (p + (e - d))"
    unfolding bitlen_le_iff_power by (simp add: nn)
  moreover have "int (p + (e - d)) \<le> bitlen F"
    unfolding bitlen_ge_iff_power using Fl by (simp add: nn pp)
  ultimately have "bitlen F = int (p + (e - d))" by simp
  then have j: "nat (bitlen F - int p) = e - d" by simp
  have "m * 2 ^ e / 2 ^ (e - d) = x" by (simp add: M)
  then have r: "rne (m * 2 ^ e / 2 ^ (e - d)) = K"
    using m by (simp add: rne_nearest x_def)
  have n: "round_units p (m * 2 ^ e) = K * 2 ^ (e - d)"
    unfolding round_units_def Let_def F_def [symmetric] j r ..
  have "K * 2 ^ (e - d) < 2 ^ p * (2::int) ^ (e - d)"
    using K(2) by (simp add: mult_strict_right_mono)
  also have "\<dots> \<le> 2 ^ w"
    unfolding power_add [symmetric] using w by (intro power_increasing) simp_all
  finally have "\<not> 2 ^ w \<le> K * 2 ^ (e - d)" by simp
  moreover have "real_of_int (K * 2 ^ (e - d)) / 2 ^ e = of_int K / 2 ^ d"
    by (simp add: e)
  ultimately show ?thesis
    unfolding round_fp_def Let_def n by simp
qed

lemma round_double_nearest:
  assumes "2 ^ 52 < K" "K < 2 ^ 53" "d \<le> 1074" "\<bar>m * 2 ^ d - of_int K\<bar> < 1 / 2"
  shows "round_double s m = Fin s (of_int K / 2 ^ d)"
  unfolding round_double_def using assms by (intro round_fp_nearest) simp_all

lemma round_pi_quarter:
  "round_double False (pi / 4) = Fin False (7074237752028440 / 2 ^ 53)"
proof -
  have "\<bar>pi / 4 * 2 ^ 53 - of_int 7074237752028440\<bar> < 1 / 2"
    using pi_lower pi_upper by (simp add: abs_less_iff)
  from round_double_nearest [OF _ _ _ this, of False] show ?thesis by simp
qed

lemma ln2_bounds: "83 / 128 \<le> ln (2::real)" "ln (2::real) \<le> 1"
proof -
  have "(1 - (83 / 128) / of_nat 16) ^ 16 \<le> exp (- (83 / 128 :: real))"
    by (rule exp_ge_one_minus_x_over_n_power_n) simp_all
  moreover have "(1 / 2 :: real) \<le> (1 - (83 / 128) / of_nat 16) ^ 16"
    by (simp add: power_divide)
  ultimately have "1 / 2 \<le> exp (- (83 / 128 :: real))" by linarith
  then have "exp (83 / 128 :: real) \<le> 2"
    by (simp add: exp_minus field_simps)
  moreover have "83 / 128 \<le> ln (2::real) \<longleftrightarrow> exp (83 / 128 :: real) \<le> 2"
    by (rule ln_ge_iff) simp
  ultimately show "83 / 128 \<le> ln (2::real)" by blast
  show "ln (2::real) \<le> 1"
    using ln_2_less_1 by simp
qed

lemma exp_bounds:
  assumes "83 / 128 \<le> v" "v \<le> (1::real)"
  shows "59 / 32 \<le> exp v" "exp v \<le> 3"
proof -
  have "(1 + (83 / 128) / of_nat 8) ^ 8 \<le> exp (83 / 128 :: real)"
    by (rule exp_ge_one_plus_x_over_n_power_n) simp_all
  moreover have "(59 / 32 :: real) \<le> (1 + (83 / 128) / of_nat 8) ^ 8"
    by (simp add: power_divide)
  moreover have "exp (83 / 128) \<le> exp v" using assms by simp
  ultimately show "59 / 32 \<le> exp v" by linarith
  have "exp v \<le> exp 1" using assms by simp
  then show "exp v \<le> 3" using exp_le by linarith
qed

lemma sin_cubic_lower:
  fixes x :: real
  assumes "0 \<le> x"
  shows "x - x ^ 3 / 6 \<le> sin x"
proof -
  have "\<bar>sin x - (\<Sum>m<3. sin_coeff m * x ^ m)\<bar> \<le> inverse (fact 3) * \<bar>x\<bar> ^ 3"
    by (rule Maclaurin_sin_bound)
  moreover have "(\<Sum>m<3. sin_coeff m * x ^ m) = x"
    by (simp add: sin_coeff_def eval_nat_numeral)
  moreover have "inverse (fact 3) * \<bar>x\<bar> ^ 3 = x ^ 3 / 6"
    using assms by (simp add: eval_nat_numeral)
  ultimately have "\<bar>sin x - x\<bar> \<le> x ^ 3 / 6" by simp
  then show ?thesis by linarith
qed

lemma quarter_turn_bounds:
  defines "B \<equiv> 7074237752028440 / 2 ^ 52 :: real"
  shows "69 / 2 ^ 60 \<le> cos B" "cos B \<le> 1 / 2 ^ 50" "0 \<le> sin B" "sin B \<le> 1"
proof -
  define x where "x = pi / 2 - B"
  have xl: "3141592653589793238 / (2 * 10 ^ 18) - B \<le> x"
    unfolding x_def using pi_lower by simp
  have xu: "x \<le> 314159265358979324 / (2 * 10 ^ 17) - B"
    unfolding x_def using pi_upper by simp
  have x0: "0 \<le> x" using xl by (simp add: B_def)
  have x1: "x \<le> 1 / 2 ^ 50" using xu by (simp add: B_def)
  have c: "cos B = sin x" by (simp add: x_def cos_sin_eq)
  have "x ^ 3 \<le> (1 / 2 ^ 50) ^ 3"
    using x1 x0 by (rule power_mono)
  then have c3: "x ^ 3 / 6 \<le> (1 / 2 ^ 50) ^ 3 / 6"
    by (rule divide_right_mono) simp
  have "69 / 2 ^ 60 \<le> 3141592653589793238 / (2 * 10 ^ 18) - B - (1 / 2 ^ 50) ^ 3 / 6"
    by (simp add: B_def power_divide)
  with xl c3 have "69 / 2 ^ 60 \<le> x - x ^ 3 / 6"
    by linarith
  also have "\<dots> \<le> sin x" using x0 by (rule sin_cubic_lower)
  finally show "69 / 2 ^ 60 \<le> cos B" by (simp add: c)
  have "sin x \<le> x" using x0 by (rule sin_x_le_x)
  with x1 show "cos B \<le> 1 / 2 ^ 50" by (simp add: c)
  have "0 \<le> B" "B \<le> pi" using pi_ge_3 by (simp_all add: B_def)
  then show "0 \<le> sin B" by (rule sin_ge_zero)
  show "sin B \<le> 1" by simp
qed

lemma EPSILON_bounds: "\<exists>e. EPSILON = Fin False e \<and> 0 \<le> e \<and> e * 2 ^ 60 \<le> 116"
proof -
  have "(1 / 10 ^ 16 :: real) \<le> of_int 116 / 2 ^ 60" by simp
  from round_double_upper [OF _ _ _ this, of False]
  obtain e where "round_double False (1 / 10 ^ 16) = Fin False e" "0 \<le> e" "e \<le> of_int 116 / 2 ^ 60"
    by auto
  then show ?thesis by (auto simp: EPSILON_def to_double_def)
qed

lemma atan2_one_one:
  "Math_atan2 (Fin False 1) (Fin False 1) = Fin False (7074237752028440 / 2 ^ 53)"
  using round_pi_quarter by (simp add: Math_atan2_def arctan_one)

lemma pow_one_one_square:
  "\<exists>R J. pow_c \<lparr>re = Fin False 1, im = Fin False 1\<rparr> (Pair (Fin False 2) (Fin False 0))
      = Inr \<lparr>re = Fin False R, im = Fin False J\<rparr> \<and> 121 \<le> R * 2 ^ 60 \<and> R * 2 ^ 60 \<le> 3072"
proof -
  define q :: real where "q = 7074237752028440 / 2 ^ 53"
  define B :: real where "B = 7074237752028440 / 2 ^ 52"
  have Bq: "2 * q = B" "q * 2 = B" by (simp_all add: q_def B_def)
  have Bpos: "0 < B" by (simp add: B_def)
  have arg: "Math_atan2 (Fin False 1) (Fin False 1) = Fin False q"
    unfolding q_def by (rule atan2_one_one)
  have rB: "round_double False B = Fin False B"
    unfolding B_def using round_double_dyadic [of 7074237752028440 52 False] by simp
  note cb = quarter_turn_bounds [folded B_def]
  obtain L where L: "round_double False (ln 2) = Fin False L" "83 \<le> L * 2 ^ 7" "L * 2 ^ 7 \<le> 128"
    using round_double_between [of 83 128 "ln 2" 7 False] ln2_bounds by auto
  obtain l2 where l2: "round_double False (L / 2) = Fin False l2" "83 \<le> l2 * 2 ^ 8" "l2 * 2 ^ 8 \<le> 128"
    using round_double_between [of 83 128 "L / 2" 8 False] L by auto
  obtain v1 where v1: "round_double False (2 * l2) = Fin False v1" "83 \<le> v1 * 2 ^ 7" "v1 * 2 ^ 7 \<le> 128"
    using round_double_between [of 83 128 "2 * l2" 7 False] l2 by auto
  obtain v2 where v2: "round_double False v1 = Fin False v2" "83 \<le> v2 * 2 ^ 7" "v2 * 2 ^ 7 \<le> 128"
    using round_double_between [of 83 128 v1 7 False] v1 by auto
  have "83 / 128 \<le> v2" "v2 \<le> 1" using v2 by simp_all
  note ex = exp_bounds [OF this]
  obtain A where A: "round_double False (exp v2) = Fin False A" "59 \<le> A * 2 ^ 5" "A * 2 ^ 5 \<le> 96"
    using round_double_between [of 59 96 "exp v2" 5 False] ex by auto
  obtain c1 where c1: "round_double False (cos B) = Fin False c1" "69 \<le> c1 * 2 ^ 60" "c1 * 2 ^ 60 \<le> 1024"
    using round_double_between [of 69 1024 "cos B" 60 False] cb(1,2) by (auto simp: field_simps)
  obtain s1 where s1: "round_double False (sin B) = Fin False s1" "0 \<le> s1" "s1 \<le> 1"
    using round_double_upper [of 1 0 "sin B" False] cb(3,4) by auto
  have Ac: "121 / 2 ^ 60 \<le> A * c1" "A * c1 \<le> 3072 / 2 ^ 60"
  proof -
    have la: "59 / 32 \<le> A" and ua: "A \<le> 3" and lc: "69 / 2 ^ 60 \<le> c1"
      and uc: "c1 \<le> 1024 / 2 ^ 60"
      using A c1 by (simp_all add: field_simps)
    have A0: "0 \<le> A" using la by linarith
    have c0: "0 \<le> c1" using lc by (rule order_trans [rotated]) simp
    have "59 / 32 * (69 / 2 ^ 60) \<le> A * c1"
      using la lc A0 by (rule mult_mono) simp
    moreover have "A * c1 \<le> 3 * (1024 / 2 ^ 60)"
      using ua uc _ c0 by (rule mult_mono) simp
    ultimately show "121 / 2 ^ 60 \<le> A * c1" "A * c1 \<le> 3072 / 2 ^ 60" by simp_all
  qed
  obtain R where R: "round_double False (A * c1) = Fin False R" "121 \<le> R * 2 ^ 60" "R * 2 ^ 60 \<le> 3072"
    using round_double_between [of 121 3072 "A * c1" 60 False] Ac by (auto simp: field_simps)
  have "0 \<le> A" using A by simp
  then have As: "0 \<le> A * s1" "A * s1 \<le> of_int 3 / 2 ^ 0"
    using A s1 by (simp_all add: mult_le_one mult_mono [of A 3 s1 1, simplified])
  obtain J where J: "round_double False (A * s1) = Fin False J"
    using round_double_upper [OF _ _ As, of False] by auto
  have lg: "logsq2 (Fin False 1) (Fin False 1) = Fin False l2"
    using L l2 by (simp add: logsq2_def fp_eval to_double_def ln2_bounds)
  have ln2_pos: "\<not> ln (2::real) < 0" using ln2_bounds(1) by simp
  have v1_pos: "v1 \<noteq> 0" "\<not> v1 < 0" using v1 by auto
  have cos_pos: "\<not> cos B < 0" using cb(1) by (simp add: not_less)
  have sin_pos: "\<not> sin B < 0" using cb(3) by simp
  have "pow_general \<lparr>re = Fin False 1, im = Fin False 1\<rparr> (Fin False 2) (Fin False 0)
      = Inr \<lparr>re = Fin False R, im = Fin False J\<rparr>"
    using arg lg v1 v2 A c1 s1 R J rB Bpos v1_pos cos_pos sin_pos
    by (simp add: pow_general_def fp_eval to_double_def Bq(1))
  moreover have "pow_c \<lparr>re = Fin False 1, im = Fin False 1\<rparr> (Pair (Fin False 2) (Fin False 0))
      = pow_general \<lparr>re = Fin False 1, im = Fin False 1\<rparr> (Fin False 2) (Fin False 0)"
    by (simp add: pow_c_def fp_eval)
  ultimately show ?thesis using R by auto
qed


lemma mul_one_one:
  "mul \<lparr>re = Fin False 1, im = Fin False 1\<rparr> (of_cnum \<lparr>re = Fin False 1, im = Fin False 1\<rparr>)
     = Inr \<lparr>re = Fin False 0, im = Fin False 2\<rparr>"
  by (simp add: mul_def of_cnum_def fp_eval to_double_def)

lemma far_from_square:
  assumes "121 \<le> R * 2 ^ 60" "R * 2 ^ 60 \<le> 3072"
  shows "equals \<lparr>re = Fin False R, im = Fin False J\<rparr> (ReIm (Fin False 0) (Fin False 2)) = Inr False"
proof -
  obtain e where e: "EPSILON = Fin False e" "0 \<le> e" "e * 2 ^ 60 \<le> 116"
    using EPSILON_bounds by blast
  obtain R' where R': "round_double True R = Fin True R'" "121 \<le> R' * 2 ^ 60"
    using round_double_between [of 121 3072 R 60 True] assms by auto
  have far: "\<not> R' \<le> e" using R'(2) e(3) by simp
  have pos: "\<not> R < 0" "R \<noteq> 0" "0 < R" using assms(1) by (auto simp: not_less)
  show ?thesis
    using R'(1) far pos
    by (simp add: equals_def of_cnum_def fp_eval to_double_def e(1))
qed

lemma pow_one_one_far:
  "and_then (pow_c \<lparr>re = Fin False 1, im = Fin False 1\<rparr> (Pair (Fin False 2) (Fin False 0)))
     (\<lambda>p. equals p (ReIm (Fin False 0) (Fin False 2))) = Inr False"
proof -
  obtain R J where p: "pow_c \<lparr>re = Fin False 1, im = Fin False 1\<rparr> (Pair (Fin False 2) (Fin False 0))
      = Inr \<lparr>re = Fin False R, im = Fin False J\<rparr>" and R: "121 \<le> R * 2 ^ 60" "R * 2 ^ 60 \<le> 3072"
    using pow_one_one_square by blast
  show ?thesis unfolding p using far_from_square [OF R, of J] by (simp add: and_then_def)
qed

text \<open>
  C5, as amended. For \<open>x = (0, 5)\<close> and \<open>x = (5, 0)\<close>, \<^verbatim>\<open>x.pow(2, 0)\<close> takes one of the exact
  cases of \<^verbatim>\<open>pow\<close>, returns the very pair that \<^verbatim>\<open>x.mul(x)\<close> returns, \<open>(-25, 0)\<close> and
  \<open>(25, 0)\<close>, and \<^verbatim>\<open>equals\<close> answers true.
\<close>

theorem pow_square_exact:
  "pow_c \<lparr>re = to_double 0, im = to_double 5\<rparr> (Pair (to_double 2) (to_double 0))
     = Inr \<lparr>re = to_double (- 25), im = to_double 0\<rparr> \<and>
   mul \<lparr>re = to_double 0, im = to_double 5\<rparr> (of_cnum \<lparr>re = to_double 0, im = to_double 5\<rparr>)
     = Inr \<lparr>re = to_double (- 25), im = to_double 0\<rparr> \<and>
   pow_equals_square \<lparr>re = to_double 0, im = to_double 5\<rparr> = Inr True \<and>
   pow_c \<lparr>re = to_double 5, im = to_double 0\<rparr> (Pair (to_double 2) (to_double 0))
     = Inr \<lparr>re = to_double 25, im = to_double 0\<rparr> \<and>
   mul \<lparr>re = to_double 5, im = to_double 0\<rparr> (of_cnum \<lparr>re = to_double 5, im = to_double 0\<rparr>)
     = Inr \<lparr>re = to_double 25, im = to_double 0\<rparr> \<and>
   pow_equals_square \<lparr>re = to_double 5, im = to_double 0\<rparr> = Inr True"
proof -
  obtain e where e: "EPSILON = Fin False e" "0 \<le> e"
    using EPSILON_bounds by blast
  have p1: "pow_c \<lparr>re = to_double 0, im = to_double 5\<rparr> (Pair (to_double 2) (to_double 0))
      = Inr \<lparr>re = Fin True 25, im = Fin False 0\<rparr>"
    by (simp add: pow_c_def fp_eval is_odd_int_def is_int_def)
  have m1: "mul \<lparr>re = to_double 0, im = to_double 5\<rparr> (of_cnum \<lparr>re = to_double 0, im = to_double 5\<rparr>)
      = Inr \<lparr>re = Fin True 25, im = Fin False 0\<rparr>"
    by (simp add: mul_def of_cnum_def fp_eval to_double_def)
  have e1: "pow_equals_square \<lparr>re = to_double 0, im = to_double 5\<rparr> = Inr True"
    unfolding pow_equals_square_def p1 m1
    by (simp add: and_then_def equals_def of_cnum_def parse_def fsub_def signed_def e)
  have p2: "pow_c \<lparr>re = to_double 5, im = to_double 0\<rparr> (Pair (to_double 2) (to_double 0))
      = Inr \<lparr>re = Fin False 25, im = Fin False 0\<rparr>"
    by (simp add: pow_c_def fp_eval is_odd_int_def is_int_def)
  have m2: "mul \<lparr>re = to_double 5, im = to_double 0\<rparr> (of_cnum \<lparr>re = to_double 5, im = to_double 0\<rparr>)
      = Inr \<lparr>re = Fin False 25, im = Fin False 0\<rparr>"
    by (simp add: mul_def of_cnum_def fp_eval to_double_def)
  have e2: "pow_equals_square \<lparr>re = to_double 5, im = to_double 0\<rparr> = Inr True"
    unfolding pow_equals_square_def p2 m2
    by (simp add: and_then_def equals_def of_cnum_def parse_def fsub_def signed_def e)
  have n: "to_double (- 25) = Fin True 25" "to_double 25 = Fin False 25" "to_double 0 = Fin False 0"
    by simp_all
  show ?thesis unfolding n using p1 m1 e1 p2 m2 e2 unfolding n by blast
qed

text \<open>
  C5 as stated fails at \<open>(1, 1)\<close>, which takes the general formula of \<^verbatim>\<open>pow\<close>: the angle
  is the double nearest to \<open>\<pi> / 4\<close>, twice that double is below \<open>\<pi> / 2\<close> by more than
  \<open>69 / 2 ^ 60\<close>, so the cosine is at least that much, the modulus is at least \<open>59 / 32\<close>, and
  the real field of the power is at least \<open>121 / 2 ^ 60\<close>, above the tolerance, which is at
  most \<open>116 / 2 ^ 60\<close>. The product \<^verbatim>\<open>x.mul(x)\<close> is \<open>(0, 2)\<close> exactly, and \<^verbatim>\<open>equals\<close>
  answers false.
\<close>

theorem pow_square_tolerance_counterexample:
  "pow_equals_square \<lparr>re = to_double 1, im = to_double 1\<rparr> = Inr False \<and>
   and_then (pow_c \<lparr>re = to_double 1, im = to_double 1\<rparr> (Pair (to_double 2) (to_double 0)))
     (\<lambda>p. equals p (ReIm (to_double 0) (to_double 2))) = Inr False"
  using pow_one_one_far mul_one_one by (simp add: pow_equals_square_def and_then_def of_cnum_def)

end
